theory Spec2Isabelle
  imports Complex_Main "HOL-Library.Word" "HOL-Library.Sublist" "HOL-Library.Multiset"
begin

section \<open>input\_latency.cpp: data model\<close>

text \<open>
  The program measures, for every input event read from an evdev character device, the time
  between the kernel's timestamp of the event and the moment user space sees it, and prints
  rolling and final percentile statistics.

  Conventions of the embedding:
  \<^item> \<open>double\<close> is read as \<^typ>\<open>real\<close>: the arithmetic is exact, and infinities and NaN are
    not modelled. Where the rounding of IEEE-754 binary64 decides a property, the function is
    read a second time with every operation rounded (\<open>percentile_with\<close>);
  \<^item> \<open>uint64_t\<close> is \<^typ>\<open>64 word\<close>, \<open>uint16_t\<close> is \<^typ>\<open>16 word\<close> and \<open>int32_t\<close> is
    \<^typ>\<open>32 word\<close>; \<open>long\<close> is taken to be 64 bits wide (LP64);
  \<^item> the two \<open>size_t\<close> counters are \<^typ>\<open>nat\<close>: they count events one by one and cannot
    reach \<open>2 ^ 64\<close> in a run; the one place where a size is narrowed, \<open>(int)latencies_us.size()\<close>,
    is modelled with its wrap-around;
  \<^item> an access to a \<open>std::vector\<close> outside its bounds is the fault \<open>Out_of_range\<close>; the
    reservation of line 127 can fail, the growth of the vector by \<open>push_back\<close> is taken to
    succeed;
  \<^item> the operating system (device, clock, signal) is an input of the model: a trace with one
    entry per iteration of the main loop.
\<close>

datatype fault = Out_of_range

text \<open>\<open>struct timespec\<close> and \<open>struct timeval\<close>.\<close>

record timespec =
  ts_sec :: "64 word"
  ts_nsec :: "64 word"

record timeval =
  tv_sec :: "64 word"
  tv_usec :: "64 word"

text \<open>\<open>struct input_event\<close> of \<open>linux/input.h\<close>.\<close>

record input_event =
  ev_time :: timeval
  ev_type :: "16 word"
  ev_code :: "16 word"
  ev_value :: "32 word"

text \<open>The event types of \<open>linux/input-event-codes.h\<close>.\<close>

definition EV_SYN :: "16 word" where "EV_SYN = 0x00"
definition EV_KEY :: "16 word" where "EV_KEY = 0x01"
definition EV_REL :: "16 word" where "EV_REL = 0x02"
definition EV_ABS :: "16 word" where "EV_ABS = 0x03"
definition EV_MSC :: "16 word" where "EV_MSC = 0x04"
definition EV_SW :: "16 word" where "EV_SW = 0x05"
definition EV_LED :: "16 word" where "EV_LED = 0x11"
definition EV_SND :: "16 word" where "EV_SND = 0x12"
definition EV_REP :: "16 word" where "EV_REP = 0x14"
definition EV_FF :: "16 word" where "EV_FF = 0x15"
definition EV_PWR :: "16 word" where "EV_PWR = 0x16"
definition EV_FF_STATUS :: "16 word" where "EV_FF_STATUS = 0x17"

section \<open>Clock conversions\<close>

definition ts_to_ns :: "timespec \<Rightarrow> 64 word" where
  "ts_to_ns ts = ts_sec ts * 1000000000 + ts_nsec ts"

definition tv_to_ns :: "timeval \<Rightarrow> 64 word" where
  "tv_to_ns tv = tv_sec tv * 1000000000 + tv_usec tv * 1000"

section \<open>Percentiles\<close>

text \<open>
  \<open>v[i]\<close>, \<open>v.front()\<close> and \<open>v.back()\<close> of a \<open>std::vector<double>\<close>, here \<open>vec_at\<close>,
  \<open>vec_front\<close> and \<open>vec_back\<close>.
\<close>

definition vec_at :: "real list \<Rightarrow> nat \<Rightarrow> fault + real" where
  "vec_at v i = (if i < length v then Inr (v ! i) else Inl Out_of_range)"

definition vec_front :: "real list \<Rightarrow> fault + real" where
  "vec_front v = vec_at v 0"

definition vec_back :: "real list \<Rightarrow> fault + real" where
  "vec_back v = (if v = [] then Inl Out_of_range else vec_at v (length v - 1))"

text \<open>
  \<open>percentile\<close>, lines 44 to 53. The cast \<open>(size_t)idx\<close> truncates; it is reached with
  \<open>0 \<le> idx\<close> only, where truncation is the floor.
\<close>

definition percentile :: "real list \<Rightarrow> real \<Rightarrow> fault + real" where
  "percentile v p =
     (if v = [] then Inr 0
      else if p \<le> 0 then vec_front v
      else if p \<ge> 100 then vec_back v
      else
        let idx = (p / 100) * real (length v - 1);
            i = nat \<lfloor>idx\<rfloor>;
            frac = idx - real i
        in if i + 1 < length v then
             (case vec_at v i of
                Inl e \<Rightarrow> Inl e
              | Inr a \<Rightarrow>
                 (case vec_at v (i + 1) of
                    Inl e \<Rightarrow> Inl e
                  | Inr b \<Rightarrow> Inr (a * (1 - frac) + b * frac)))
           else vec_at v i)"

text \<open>The percentile as section 4.2 of the specification words it, over a sorted list.\<close>

definition spec_percentile :: "real list \<Rightarrow> real \<Rightarrow> real" where
  "spec_percentile sorted_v p =
     (if p = 0 then Min (set sorted_v)
      else if p = 100 then Max (set sorted_v)
      else
        let n = length sorted_v;
            index = (p / 100) * (real n - 1);
            i = nat \<lfloor>index\<rfloor>;
            frac = index - real i
        in if i + 1 < n then sorted_v ! i * (1 - frac) + sorted_v ! (i + 1) * frac
           else last sorted_v)"

section \<open>Percentiles in binary64\<close>


text \<open>
  Rounding to the nearest binary64 number, ties to the even significand: a number \<open>x\<close> with
  \<open>2 ^ e \<le> \<bar>x\<bar> < 2 ^ (e + 1)\<close> is rounded to a multiple of \<open>2 ^ (e - 52)\<close>, and of \<open>2 ^ - 1074\<close>
  below the normal range. \<open>ilog2 n\<close> is the position of the leading bit of \<open>n\<close>, \<open>expo x\<close> the
  exponent \<open>e\<close> of a positive \<open>x\<close>. Results beyond the largest finite number are not modelled.
\<close>

function ilog2 :: "nat \<Rightarrow> nat" where
  "ilog2 n = (if n < 2 then 0 else 1 + ilog2 (n div 2))"
  by pat_completeness auto
termination
  by (relation "measure (\<lambda>n. n)") auto

declare ilog2.simps [simp del]

definition pow2 :: "int \<Rightarrow> real" where
  "pow2 k = (if 0 \<le> k then 2 ^ nat k else 1 / 2 ^ nat (- k))"

definition expo :: "real \<Rightarrow> int" where
  "expo x =
     (if 1 \<le> x then int (ilog2 (nat \<lfloor>x\<rfloor>))
      else - int (ilog2 (nat \<lceil>1 / x\<rceil> - 1)) - 1)"

definition round_even :: "real \<Rightarrow> int" where
  "round_even q =
     (let f = \<lfloor>q\<rfloor>;
          r = q - of_int f
      in if r < 1 / 2 then f
         else if 1 / 2 < r then f + 1
         else if even f then f
         else f + 1)"

definition b64_round :: "real \<Rightarrow> real" where
  "b64_round x =
     (if x = 0 then 0
      else
        let e = max (expo \<bar>x\<bar>) (- 1022);
            u = pow2 (e - 52)
        in of_int (round_even (x / u)) * u)"


section \<open>Console output\<close>

text \<open>
  What the program writes, message by message, with the stream it goes to. The numbers are kept
  as values: the formatting (\<open>std::fixed\<close>, two decimals) is not modelled.
\<close>

datatype stream = Stdout | Stderr

datatype msg =
    Usage string
  | Unknown_arg string
  | Perror string
  | Warn_clockid
  | Device_banner string string
  | Collecting
  | Idle
  | Event_line string "16 word" "32 word" real
  | Stats bool nat real real real real
  | No_events
  | Totals nat nat

definition ev_type_to_str :: "16 word \<Rightarrow> string" where
  "ev_type_to_str t =
     (if t = EV_SYN then ''SYN''
      else if t = EV_KEY then ''KEY''
      else if t = EV_REL then ''REL''
      else if t = EV_ABS then ''ABS''
      else if t = EV_MSC then ''MSC''
      else if t = EV_SW then ''SW''
      else if t = EV_LED then ''LED''
      else if t = EV_SND then ''SND''
      else if t = EV_REP then ''REP''
      else if t = EV_FF then ''FF''
      else if t = EV_PWR then ''PWR''
      else if t = EV_FF_STATUS then ''FF_STATUS''
      else ''UNK'')"

section \<open>The sampler and the accumulator\<close>

text \<open>The variables of \<open>main\<close> that the loop updates, and the output written so far.\<close>

record state =
  latencies_us :: "real list"
  total_events :: nat
  measured_events :: nat
  out :: "(stream \<times> msg) list"

definition emit :: "stream \<Rightarrow> msg \<Rightarrow> state \<Rightarrow> state" where
  "emit st m s = s\<lparr>out := out s @ [(st, m)]\<rparr>"

text \<open>
  The lambda \<open>print_stats\<close>, lines 142 to 159: it sorts a copy of the accumulator, sums the
  copy in order and prints one block. \<open>final_summary\<close> chooses the heading only.
\<close>

definition print_stats :: "bool \<Rightarrow> state \<Rightarrow> fault + state" where
  "print_stats final_summary s =
     (if latencies_us s = [] then Inr s
      else
        let v = sort (latencies_us s);
            avg = foldl (+) 0 v / real (length v)
        in case percentile v 50 of
             Inl e \<Rightarrow> Inl e
           | Inr p50 \<Rightarrow>
              (case percentile v 95 of
                 Inl e \<Rightarrow> Inl e
               | Inr p95 \<Rightarrow>
                  (case percentile v 99 of
                     Inl e \<Rightarrow> Inl e
                   | Inr p99 \<Rightarrow>
                      Inr (emit Stdout (Stats final_summary (length v) avg p50 p95 p99) s))))"

text \<open>Line 185: the event types that are timed.\<close>

definition measure_ev :: "input_event \<Rightarrow> bool" where
  "measure_ev ev \<longleftrightarrow>
     ev_type ev = EV_KEY \<or> ev_type ev = EV_ABS \<or> ev_type ev = EV_REL \<or> ev_type ev = EV_MSC"

text \<open>
  The body of the \<open>for\<close> loop, lines 181 to 212, for one record. The second component is what
  \<open>clock_gettime(CLOCK_MONOTONIC)\<close> returns when it is called for this record.
\<close>

definition process_event :: "bool \<Rightarrow> state \<Rightarrow> input_event \<times> timespec \<Rightarrow> fault + state" where
  "process_event quiet s e =
     (let ev = fst e;
          now_ts = snd e;
          s1 = s\<lparr>total_events := total_events s + 1\<rparr>
      in if \<not> measure_ev ev then Inr s1
         else
           let now_ns = ts_to_ns now_ts;
               evt_ns = tv_to_ns (ev_time ev)
           in if now_ns \<ge> evt_ns then
                let delta_us = real (unat (now_ns - evt_ns)) / 1000;
                    s2 = s1\<lparr>latencies_us := latencies_us s1 @ [delta_us],
                             measured_events := measured_events s1 + 1\<rparr>;
                    s3 = (if \<not> quiet
                          then emit Stdout
                                 (Event_line (ev_type_to_str (ev_type ev)) (ev_code ev)
                                    (ev_value ev) delta_us) s2
                          else s2)
                in if \<not> quiet \<and> measured_events s3 mod 50 = 0 then print_stats False s3
                   else Inr s3
              else Inr s1)"

text \<open>The \<open>for\<close> loop over the records of one \<open>read\<close>, lines 180 to 213.\<close>

fun process_batch :: "bool \<Rightarrow> state \<Rightarrow> (input_event \<times> timespec) list \<Rightarrow> fault + state" where
  "process_batch quiet s [] = Inr s"
| "process_batch quiet s (e # es) =
     (case process_event quiet s e of
        Inl f \<Rightarrow> Inl f
      | Inr s' \<Rightarrow> process_batch quiet s' es)"

section \<open>The main loop\<close>

text \<open>
  One iteration of the \<open>while\<close> loop sees the stop flag, the result of \<open>poll\<close> and, when
  \<open>POLLIN\<close> is set, the result of \<open>read\<close>:
  \<^item> \<open>Read_again\<close> is \<open>n < 0\<close> with \<open>EAGAIN\<close> or \<open>EINTR\<close>, \<open>Read_failed\<close> any other \<open>n < 0\<close>,
    \<open>Read_ok\<close> carries the records the device holds, each with the clock value its processing
    would see; \<open>read\<close> transfers at most \<open>BUF_EV\<close> of them, whole;
  \<^item> \<open>Poll_eintr\<close> is \<open>rv < 0\<close> with \<open>EINTR\<close>, \<open>Poll_failed\<close> any other \<open>rv < 0\<close>,
    \<open>Poll_timeout\<close> is \<open>rv = 0\<close>, and \<open>Poll_ready pollin r\<close> is \<open>rv > 0\<close> with
    \<open>pollin\<close> telling whether \<open>revents\<close> has \<open>POLLIN\<close>.
\<close>

datatype read_res = Read_again | Read_failed | Read_ok "(input_event \<times> timespec) list"

datatype poll_res = Poll_eintr | Poll_failed | Poll_timeout | Poll_ready bool read_res

datatype ctl = Continue | Break

definition BUF_EV :: nat where
  "BUF_EV = 64"

definition loop_body :: "bool \<Rightarrow> poll_res \<Rightarrow> state \<Rightarrow> fault + (ctl \<times> state)" where
  "loop_body quiet pr s =
     (case pr of
        Poll_eintr \<Rightarrow> Inr (Continue, s)
      | Poll_failed \<Rightarrow> Inr (Break, emit Stderr (Perror ''poll'') s)
      | Poll_timeout \<Rightarrow> Inr (Continue, if \<not> quiet then emit Stdout Idle s else s)
      | Poll_ready pollin r \<Rightarrow>
          if pollin then
            (case r of
               Read_again \<Rightarrow> Inr (Continue, s)
             | Read_failed \<Rightarrow> Inr (Break, emit Stderr (Perror ''read'') s)
             | Read_ok evs \<Rightarrow>
                 (case process_batch quiet s (take BUF_EV evs) of
                    Inl f \<Rightarrow> Inl f
                  | Inr s' \<Rightarrow> Inr (Continue, s')))
          else Inr (Continue, s))"

text \<open>The conversion \<open>(int)latencies_us.size()\<close>: the low 32 bits, read as two's complement.\<close>

definition int_of_size :: "nat \<Rightarrow> int" where
  "int_of_size n = sint (word_of_nat n :: 32 word)"

text \<open>
  The \<open>while\<close> loop, lines 161 to 215, over a trace of iterations; the first component of an
  entry is the value of \<open>g_stop\<close> that the loop head reads. The loop may never end: a trace
  that runs out before the loop is left gives \<open>Running\<close>.
\<close>

datatype run = Running state | Left_loop state

fun run_loop :: "int \<Rightarrow> bool \<Rightarrow> (bool \<times> poll_res) list \<Rightarrow> state \<Rightarrow> fault + run" where
  "run_loop limit quiet [] s = Inr (Running s)"
| "run_loop limit quiet (it # rest) s =
     (if \<not> fst it \<and> (limit = 0 \<or> int_of_size (length (latencies_us s)) < limit) then
        (case loop_body quiet (snd it) s of
           Inl f \<Rightarrow> Inl f
         | Inr (Continue, s') \<Rightarrow> run_loop limit quiet rest s'
         | Inr (Break, s') \<Rightarrow> Inr (Left_loop s'))
      else Inr (Left_loop s))"

fun state_of :: "run \<Rightarrow> state" where
  "state_of (Running s) = s"
| "state_of (Left_loop s) = s"

section \<open>Command line\<close>

text \<open>
  \<open>std::stoi\<close> with base 10, as the C++ standard library defines it: leading white space is
  skipped, a sign is optional, the longest run of digits is converted and what follows is
  ignored; no digit throws \<open>std::invalid_argument\<close>, a value outside \<open>int\<close> throws
  \<open>std::out_of_range\<close>. The third exception of the program is the \<open>std::bad_alloc\<close> of a
  \<open>reserve\<close> that the host cannot grant.
\<close>

datatype exn = Invalid_argument | Out_of_range_exn | Bad_alloc

definition isspace :: "char \<Rightarrow> bool" where
  "isspace c \<longleftrightarrow> c \<in> {CHR 0x20, CHR 0x09, CHR 0x0A, CHR 0x0B, CHR 0x0C, CHR 0x0D}"

definition isdigit :: "char \<Rightarrow> bool" where
  "isdigit c \<longleftrightarrow> (48 :: nat) \<le> of_char c \<and> (of_char c :: nat) \<le> 57"

definition stoi :: "string \<Rightarrow> exn + int" where
  "stoi str =
     (let s1 = dropWhile isspace str;
          neg = (s1 \<noteq> [] \<and> hd s1 = CHR ''-'');
          s2 = (if s1 \<noteq> [] \<and> (hd s1 = CHR ''-'' \<or> hd s1 = CHR ''+'') then tl s1 else s1);
          ds = takeWhile isdigit s2
      in if ds = [] then Inl Invalid_argument
         else
           let n = foldl (\<lambda>a c. 10 * a + int (of_char c - 48)) 0 ds;
               v = (if neg then - n else n)
           in if v < - 2147483648 \<or> 2147483647 < v then Inl Out_of_range_exn else Inr v)"

text \<open>
  The loop over \<open>argv[2 ..]\<close>, lines 83 to 92. It ends with the settings, with the argument it
  does not know, or with the exception \<open>std::stoi\<close> throws, which nothing catches.
\<close>

datatype arg_error = Unknown string | Thrown exn

fun parse_args :: "string list \<Rightarrow> int \<Rightarrow> bool \<Rightarrow> arg_error + (int \<times> bool)" where
  "parse_args [] limit quiet = Inr (limit, quiet)"
| "parse_args [a] limit quiet =
     (if a = ''--quiet'' then Inr (limit, True) else Inl (Unknown a))"
| "parse_args (a # b # rest) limit quiet =
     (if a = ''--limit'' then
        (case stoi b of
           Inl x \<Rightarrow> Inl (Thrown x)
         | Inr n \<Rightarrow> parse_args rest n quiet)
      else if a = ''--quiet'' then parse_args (b # rest) limit True
      else Inl (Unknown a))"

section \<open>The program\<close>

text \<open>
  What the operating system answers during one run: whether \<open>open\<close> succeeds, whether the
  \<open>EVIOCSCLOCKID\<close> request succeeds (the macro is taken to be defined), the device name when
  \<open>EVIOCGNAME\<close> succeeds, for which number of samples the host grants the reservation of
  line 127, and the iterations of the main loop.
\<close>

record os =
  open_ok :: bool
  clockid_ok :: bool
  dev_name :: "string option"
  reserve_ok :: "nat \<Rightarrow> bool"
  iterations :: "(bool \<times> poll_res) list"

text \<open>
  How a run ends: \<open>return\<close> from \<open>main\<close> with a code, \<open>std::terminate\<close> after an exception
  nothing catches, a fault, or not at all within the trace.
\<close>

datatype outcome = Exit int | Terminate exn | Fault fault | Still_running

definition init_state :: "bool \<Rightarrow> os \<Rightarrow> string \<Rightarrow> state" where
  "init_state quiet env dev =
     \<lparr>latencies_us = [], total_events = 0, measured_events = 0,
      out = (if \<not> clockid_ok env \<and> \<not> quiet then [(Stderr, Warn_clockid)] else [])
            @ (if \<not> quiet
               then [(Stdout, Device_banner dev (case dev_name env of None \<Rightarrow> ''unknown'' | Some n \<Rightarrow> n)),
                     (Stdout, Collecting)]
               else [])\<rparr>"

text \<open>Lines 217 to 227: the final report and the exit code.\<close>

definition finish :: "state \<Rightarrow> outcome \<times> (stream \<times> msg) list" where
  "finish s =
     (case (if latencies_us s \<noteq> [] then print_stats True s else Inr (emit Stdout No_events s)) of
        Inl f \<Rightarrow> (Fault f, out s)
      | Inr s' \<Rightarrow>
          (Exit 0, out s' @ [(Stdout, Totals (total_events s') (measured_events s'))]))"

text \<open>
  \<open>main\<close>: \<open>prog\<close> is \<open>argv[0]\<close> and \<open>args\<close> are \<open>argv[1 ..]\<close>, so that \<open>argc\<close> is
  \<open>1 + length args\<close>. Line 127 reserves room for \<open>limit\<close> samples, or for 4096 when there
  is no positive limit; an \<open>int\<close> is below the vector's \<open>max_size\<close>, so that the one way
  this can fail is \<open>std::bad_alloc\<close>, which nothing catches. It comes after the banner of
  lines 118 to 121 has been written.
\<close>

definition main :: "string \<Rightarrow> string list \<Rightarrow> os \<Rightarrow> outcome \<times> (stream \<times> msg) list" where
  "main prog args env =
     (if 1 + length args < 2 then (Exit 1, [(Stderr, Usage prog)])
      else
        let dev = hd args in
        case parse_args (tl args) 0 False of
          Inl (Unknown a) \<Rightarrow> (Exit 1, [(Stderr, Unknown_arg a)])
        | Inl (Thrown x) \<Rightarrow> (Terminate x, [])
        | Inr (limit, quiet) \<Rightarrow>
            if \<not> open_ok env then (Exit 1, [(Stderr, Perror ''open'')])
            else if \<not> reserve_ok env (if 0 < limit then nat limit else 4096)
            then (Terminate Bad_alloc, out (init_state quiet env dev))
            else
              (case run_loop limit quiet (iterations env) (init_state quiet env dev) of
                 Inl f \<Rightarrow> (Fault f, [])
               | Inr (Running s) \<Rightarrow> (Still_running, out s)
               | Inr (Left_loop s) \<Rightarrow> finish s))"

section \<open>The specification's words, for comparison\<close>

text \<open>
  The report of section 4.2 of the specification over an accumulated sample list: the count,
  the arithmetic mean, and the percentiles 50, 95 and 99 of the list sorted in ascending order.
\<close>

definition spec_stats :: "bool \<Rightarrow> real list \<Rightarrow> msg" where
  "spec_stats final samples =
     Stats final (length samples) (sum_list samples / real (length samples))
       (spec_percentile (sort samples) 50)
       (spec_percentile (sort samples) 95)
       (spec_percentile (sort samples) 99)"

text \<open>
  The sampling procedure of section 4.2 for one record read at clock value \<open>now_ns\<close>:
  \<open>delta_ns\<close> is the receipt time minus the device timestamp; a Measurable record with a
  non-negative \<open>delta_ns\<close> contributes the sample \<open>delta_ns / 1000\<close>, any other record
  none.
\<close>

definition delta_ns :: "input_event \<times> timespec \<Rightarrow> int" where
  "delta_ns e = uint (ts_to_ns (snd e)) - uint (tv_to_ns (ev_time (fst e)))"

definition spec_samples :: "(input_event \<times> timespec) list \<Rightarrow> real list" where
  "spec_samples es =
     map (\<lambda>e. real_of_int (delta_ns e) / 1000)
       (filter (\<lambda>e. measure_ev (fst e) \<and> 0 \<le> delta_ns e) es)"

text \<open>
  The bookkeeping of the run: the measured count is the size of the accumulator and does not
  exceed the total count; from one point of the run to a later one the accumulator is only
  extended and the counters do not decrease.
\<close>

definition counters_ok :: "state \<Rightarrow> bool" where
  "counters_ok s \<longleftrightarrow>
     measured_events s = length (latencies_us s) \<and> measured_events s \<le> total_events s"

definition grown :: "state \<Rightarrow> state \<Rightarrow> bool" where
  "grown s s' \<longleftrightarrow>
     prefix (latencies_us s) (latencies_us s')
     \<and> total_events s \<le> total_events s'
     \<and> measured_events s \<le> measured_events s'"

text \<open>The final summaries among the messages written: the blocks headed \<open>=== Final\<close>.\<close>

fun is_final_summary :: "msg \<Rightarrow> bool" where
  "is_final_summary (Stats final n avg p50 p95 p99) = final"
| "is_final_summary _ = False"

definition final_summaries :: "(stream \<times> msg) list \<Rightarrow> msg list" where
  "final_summaries ms = filter is_final_summary (map snd ms)"

text \<open>
  The options of the command line after the device path, as the usage line gives them, and the
  arguments they are written as. \<open>values_ok\<close> says that every value of \<open>--limit\<close> is one that
  \<open>std::stoi\<close> converts; \<open>settings\<close> gives the limit and the quiet flag that a list of such
  options asks for, the last \<open>--limit\<close> winning. An argument is \<open>unrecognised\<close> when it is
  neither \<open>--limit\<close> nor \<open>--quiet\<close>, or when it is \<open>--limit\<close> with nothing after it.
\<close>

datatype option_arg = Quiet | Limit string

fun render :: "option_arg list \<Rightarrow> string list" where
  "render [] = []"
| "render (Quiet # opts) = ''--quiet'' # render opts"
| "render (Limit v # opts) = ''--limit'' # v # render opts"

fun values_ok :: "option_arg list \<Rightarrow> bool" where
  "values_ok [] = True"
| "values_ok (Quiet # opts) = values_ok opts"
| "values_ok (Limit v # opts) = (case stoi v of Inl x \<Rightarrow> False | Inr n \<Rightarrow> values_ok opts)"

fun settings :: "option_arg list \<Rightarrow> int \<Rightarrow> bool \<Rightarrow> int \<times> bool" where
  "settings [] limit quiet = (limit, quiet)"
| "settings (Quiet # opts) limit quiet = settings opts limit True"
| "settings (Limit v # opts) limit quiet =
     settings opts (case stoi v of Inl x \<Rightarrow> limit | Inr n \<Rightarrow> n) quiet"

definition unrecognised :: "string \<Rightarrow> string list \<Rightarrow> bool" where
  "unrecognised a rest \<longleftrightarrow>
     a \<noteq> ''--limit'' \<and> a \<noteq> ''--quiet'' \<or> a = ''--limit'' \<and> rest = []"

section \<open>Percentiles: properties\<close>

lemma floor_scaled_less:
  assumes "0 < p" "p < 100" "0 < m"
  shows "nat \<lfloor>(p / 100) * real m\<rfloor> < m"
proof -
  define x where "x = (p / 100) * real m"
  have "p / 100 < 1" using assms by simp
  moreover have "0 < real m" using assms by simp
  ultimately have "(p / 100) * real m < 1 * real m" by (rule mult_strict_right_mono)
  then have "x < real m" by (simp add: x_def)
  then have "\<lfloor>x\<rfloor> < int m" by (simp add: floor_less_iff)
  moreover have "0 \<le> x" using assms by (simp add: x_def)
  ultimately have "nat \<lfloor>x\<rfloor> < m" by linarith
  then show ?thesis by (simp only: x_def)
qed

lemma percentile_one: "percentile [x] p = Inr x"
  by (simp add: percentile_def vec_front_def vec_back_def vec_at_def Let_def)

lemma percentile_low: "v \<noteq> [] \<Longrightarrow> p \<le> 0 \<Longrightarrow> percentile v p = Inr (v ! 0)"
  by (simp add: percentile_def vec_front_def vec_at_def)

lemma percentile_high: "v \<noteq> [] \<Longrightarrow> 0 < p \<Longrightarrow> 100 \<le> p \<Longrightarrow> percentile v p = Inr (v ! (length v - 1))"
  by (simp add: percentile_def vec_back_def vec_at_def)

lemma percentile_mid:
  assumes "2 \<le> length v" "0 < p" "p < 100"
  shows "percentile v p =
           Inr (v ! nat \<lfloor>(p / 100) * real (length v - 1)\<rfloor> * (1 - ((p / 100) * real (length v - 1) - real (nat \<lfloor>(p / 100) * real (length v - 1)\<rfloor>)))
                + v ! (nat \<lfloor>(p / 100) * real (length v - 1)\<rfloor> + 1) * ((p / 100) * real (length v - 1) - real (nat \<lfloor>(p / 100) * real (length v - 1)\<rfloor>)))"
proof -
  define i where "i = nat \<lfloor>(p / 100) * real (length v - 1)\<rfloor>"
  have "0 < length v - 1" using assms(1) by simp
  from floor_scaled_less [OF assms(2,3) this] have "i < length v - 1" by (simp only: i_def)
  then have i: "i + 1 < length v" "i < length v" by simp_all
  have ne: "v \<noteq> []" using assms(1) by auto
  have np: "\<not> p \<le> 0" "\<not> 100 \<le> p" using assms by simp_all
  show ?thesis
    unfolding percentile_def Let_def i_def [symmetric] vec_at_def
    using i ne np by simp
qed


lemma sorted_hd_Min: "sorted v \<Longrightarrow> v \<noteq> [] \<Longrightarrow> v ! 0 = Min (set (v :: real list))"
proof (cases v)
  case Nil
  assume "v \<noteq> []"
  with Nil show ?thesis by simp
next
  case (Cons x xs)
  assume "sorted v"
  with Cons have "\<forall>y\<in>set xs. x \<le> y" by simp
  then have "Min (insert x (set xs)) = x"
    by (intro Min_eqI) auto
  with Cons show ?thesis by simp
qed

lemma sorted_last_Max:
  assumes s: "sorted v" and ne: "v \<noteq> []"
  shows "v ! (length v - 1) = Max (set (v :: real list))"
proof -
  have "\<forall>y\<in>set v. y \<le> v ! (length v - 1)"
  proof
    fix y assume "y \<in> set v"
    then obtain k where k: "k < length v" "v ! k = y" by (auto simp: in_set_conv_nth)
    then have "v ! k \<le> v ! (length v - 1)"
      using s by (intro sorted_nth_mono) auto
    with k show "y \<le> v ! (length v - 1)" by simp
  qed
  moreover have "v ! (length v - 1) \<in> set v" using ne by simp
  ultimately show ?thesis by (intro Max_eqI [symmetric]) auto
qed

lemma percentile_eq_spec:
  assumes "v \<noteq> []" and "sorted v" and "0 \<le> p" and "p \<le> 100"
  shows "percentile v p = Inr (spec_percentile v p)"
proof -
  have len: "real (length v) - 1 = real (length v - 1)"
    using assms(1) by (cases v) auto
  consider "p = 0" | "p = 100" | "0 < p" "p < 100"
    using assms(3,4) by fastforce
  then show ?thesis
  proof cases
    case 1
    then show ?thesis
      using assms(1,2) by (simp add: percentile_low spec_percentile_def sorted_hd_Min)
  next
    case 2
    then show ?thesis
      using assms(1) sorted_last_Max [OF assms(2,1)]
      by (simp add: percentile_high spec_percentile_def)
  next
    case 3
    show ?thesis
    proof (cases "2 \<le> length v")
      case True
      define i where "i = nat \<lfloor>(p / 100) * real (length v - 1)\<rfloor>"
      have "0 < length v - 1" using True by simp
      from floor_scaled_less [OF 3 this]
      have "i < length v - 1" by (simp only: i_def)
      then have "i + 1 < length v" by arith
      with 3 show ?thesis
        unfolding percentile_mid [OF True 3] spec_percentile_def Let_def len i_def [symmetric]
        by simp
    next
      case False
      moreover have "0 < length v" using assms(1) by simp
      ultimately have "length v = 1" by arith
      then obtain x where "v = [x]" by (cases v) auto
      with 3 show ?thesis
        by (simp add: percentile_one spec_percentile_def Let_def)
    qed
  qed
qed

text \<open>
  Claim C2. On a non-empty list sorted in ascending order and for \<open>p\<close> between 0 and 100,
  \<open>percentile\<close> returns what the specification's interpolation formula gives: the minimum
  at \<open>p = 0\<close>, the maximum at \<open>p = 100\<close>, and in between
  \<open>sorted[i] * (1 - frac) + sorted[i + 1] * frac\<close> with \<open>index = (p / 100) * (n - 1)\<close>,
  \<open>i = floor index\<close>, \<open>frac = index - i\<close>, the last element when \<open>i + 1\<close> is out of range.
  The witness is scenario A: the samples 100, 200, 300, 400, 500 have \<open>p0 = 100\<close>,
  \<open>p50 = 300\<close> and \<open>p100 = 500\<close>.
\<close>

theorem percentile_interpolation:
  assumes "v \<noteq> []" and "sorted v" and "0 \<le> p" and "p \<le> 100"
  shows "percentile v p = Inr (spec_percentile v p)"
  using assms by (rule percentile_eq_spec)

theorem percentile_interpolation_witness:
  "percentile [100, 200, 300, 400, 500] 0 = Inr 100
   \<and> percentile [100, 200, 300, 400, 500] 50 = Inr 300
   \<and> percentile [100, 200, 300, 400, 500] 100 = Inr 500"
proof -
  let ?v = "[100, 200, 300, 400, 500] :: real list"
  have ne: "?v \<noteq> []" and s: "sorted ?v" by simp_all
  have "percentile ?v 0 = Inr (spec_percentile ?v 0)"
    by (rule percentile_interpolation [OF ne s]) simp_all
  moreover have "percentile ?v 50 = Inr (spec_percentile ?v 50)"
    by (rule percentile_interpolation [OF ne s]) simp_all
  moreover have "percentile ?v 100 = Inr (spec_percentile ?v 100)"
    by (rule percentile_interpolation [OF ne s]) simp_all
  moreover have "spec_percentile ?v 0 = 100" "spec_percentile ?v 100 = 500"
    by (simp_all add: spec_percentile_def)
  moreover have "spec_percentile ?v 50 = 300"
    by (simp add: spec_percentile_def Let_def)
  ultimately show ?thesis by simp
qed

lemma percentile_total: "\<exists>r. percentile v p = Inr r"
proof (cases "v = []")
  case True
  then show ?thesis by (simp add: percentile_def)
next
  case ne: False
  consider "p \<le> 0" | "0 < p" "100 \<le> p" | "0 < p" "p < 100" "length v = 1" | "0 < p" "p < 100" "2 \<le> length v"
  proof -
    have "0 < length v" using ne by simp
    then have "length v = 1 \<or> 2 \<le> length v" by arith
    moreover assume "p \<le> 0 \<Longrightarrow> thesis" "0 < p \<Longrightarrow> 100 \<le> p \<Longrightarrow> thesis"
      "0 < p \<Longrightarrow> p < 100 \<Longrightarrow> length v = 1 \<Longrightarrow> thesis"
      "0 < p \<Longrightarrow> p < 100 \<Longrightarrow> 2 \<le> length v \<Longrightarrow> thesis"
    ultimately show thesis by (cases "p \<le> 0"; cases "100 \<le> p") auto
  qed
  then show ?thesis
  proof cases
    case 1 with ne show ?thesis by (simp add: percentile_low)
  next
    case 2 with ne show ?thesis by (simp add: percentile_high)
  next
    case 3
    then obtain x where "v = [x]" by (cases v) auto
    then show ?thesis by (simp add: percentile_one)
  next
    case 4 then show ?thesis by (simp add: percentile_mid)
  qed
qed








section \<open>Percentiles in binary64: properties\<close>


text \<open>The rounding is to a nearest multiple of the unit, and the exponent is the right one.\<close>

lemma ilog2_bounds: "1 \<le> n \<Longrightarrow> 2 ^ ilog2 n \<le> n \<and> n < 2 ^ (ilog2 n + 1)"
proof (induction n rule: ilog2.induct)
  case (1 n)
  show ?case
  proof (cases "n < 2")
    case True
    with "1.prems" have "n = 1" by simp
    then show ?thesis by (simp add: ilog2.simps)
  next
    case False
    then have "1 \<le> n div 2" by simp
    with "1.IH" False have ih: "2 ^ ilog2 (n div 2) \<le> n div 2" "n div 2 < 2 ^ (ilog2 (n div 2) + 1)"
      by simp_all
    have il: "ilog2 n = 1 + ilog2 (n div 2)" using False by (simp add: ilog2.simps)
    have "2 * 2 ^ ilog2 (n div 2) \<le> 2 * (n div 2)" using ih(1) by simp
    also have "\<dots> \<le> n" by simp
    finally have lo: "2 ^ ilog2 n \<le> n" by (simp add: il)
    have "n div 2 + 1 \<le> 2 ^ (ilog2 (n div 2) + 1)" using ih(2) by simp
    then have "2 * (n div 2 + 1) \<le> 2 * 2 ^ (ilog2 (n div 2) + 1)" by simp
    moreover have "n < 2 * (n div 2 + 1)" by simp
    ultimately have "n < 2 * 2 ^ (ilog2 (n div 2) + 1)" by linarith
    then have "n < 2 ^ (ilog2 n + 1)" by (simp add: il)
    with lo show ?thesis by simp
  qed
qed

lemma pow2_nat: "pow2 (int k) = 2 ^ k"
  by (simp add: pow2_def)

lemma pow2_neg: "pow2 (- int k) = 1 / 2 ^ k"
  by (cases "k = 0") (simp_all add: pow2_def)

lemma pow2_pos: "0 < pow2 k"
  by (simp add: pow2_def)

lemma real_pow2_le: "2 ^ k \<le> (n :: nat) \<Longrightarrow> (2 :: real) ^ k \<le> real n"
proof -
  assume "2 ^ k \<le> n"
  then have "real (2 ^ k) \<le> real n" by (simp only: of_nat_le_iff)
  then show ?thesis by simp
qed

lemma real_le_pow2: "(n :: nat) \<le> 2 ^ k \<Longrightarrow> real n \<le> (2 :: real) ^ k"
proof -
  assume "n \<le> 2 ^ k"
  then have "real n \<le> real (2 ^ k)" by (simp only: of_nat_le_iff)
  then show ?thesis by simp
qed

lemma expo_bounds:
  assumes "0 < x"
  shows "pow2 (expo x) \<le> x \<and> x < pow2 (expo x + 1)"
proof (cases "1 \<le> x")
  case True
  define n where "n = nat \<lfloor>x\<rfloor>"
  have n1: "1 \<le> n" using True by (simp add: n_def le_nat_iff le_floor_iff)
  have nx: "real n \<le> x" "x < real n + 1" using True by (simp_all add: n_def)
  from ilog2_bounds [OF n1] have b: "2 ^ ilog2 n \<le> n" "n + 1 \<le> 2 ^ (ilog2 n + 1)" by simp_all
  have e: "expo x = int (ilog2 n)" using True by (simp add: expo_def n_def)
  have r1: "(2::real) ^ ilog2 n \<le> real n" using b(1) by (rule real_pow2_le)
  have "real (n + 1) \<le> 2 ^ (ilog2 n + 1)" using b(2) by (rule real_le_pow2)
  then have r2: "real n + 1 \<le> 2 ^ (ilog2 n + 1)" by simp
  have p1: "pow2 (expo x) = 2 ^ ilog2 n" by (simp only: e pow2_nat)
  have "expo x + 1 = int (ilog2 n + 1)" by (simp add: e)
  then have p2: "pow2 (expo x + 1) = 2 ^ (ilog2 n + 1)" by (simp only: pow2_nat)
  show ?thesis unfolding p1 p2 using r1 r2 nx by linarith
next
  case False
  define n where "n = nat \<lceil>1 / x\<rceil>"
  define k where "k = ilog2 (n - 1)"
  have y: "1 < 1 / x" using False assms by simp
  then have n2: "2 \<le> n" unfolding n_def by linarith
  have ny: "1 / x \<le> real n" "real n - 1 < 1 / x" using y unfolding n_def by linarith+
  have "1 \<le> n - 1" using n2 by simp
  from ilog2_bounds [OF this] have b0: "2 ^ k \<le> n - 1" "n - 1 < 2 ^ (k + 1)"
    unfolding k_def by blast+
  from b0(2) have b2: "n \<le> 2 ^ (k + 1)" by linarith
  have e: "expo x = - int (k + 1)" using False by (simp add: expo_def n_def k_def)
  have e1: "expo x + 1 = - int k" by (simp add: e)
  have "real n \<le> 2 ^ (k + 1)" using b2 by (rule real_le_pow2)
  with ny(1) have "1 / x \<le> 2 ^ (k + 1)" by linarith
  then have lo: "1 / 2 ^ (k + 1) \<le> x"
    using assms by (simp add: field_simps)
  have "(2::real) ^ k \<le> real (n - 1)" using b0(1) by (rule real_pow2_le)
  then have "(2::real) ^ k \<le> real n - 1" using n2 by (simp add: of_nat_diff)
  with ny(2) have "2 ^ k < 1 / x" by linarith
  then have hi: "x < 1 / 2 ^ k" using assms by (simp add: field_simps)
  have "pow2 (expo x) = 1 / 2 ^ (k + 1)" by (simp only: e pow2_neg)
  moreover have "pow2 (expo x + 1) = 1 / 2 ^ k" by (simp only: e1 pow2_neg)
  ultimately show ?thesis using lo hi by simp
qed

lemma round_even_nearest: "\<bar>real_of_int (round_even q) - q\<bar> \<le> 1 / 2"
  unfolding round_even_def Let_def by (auto split: if_splits)

lemma round_even_tie: "q - of_int \<lfloor>q\<rfloor> = 1 / 2 \<Longrightarrow> even (round_even q)"
  unfolding round_even_def Let_def by auto

lemma b64_round_nearest:
  "\<bar>b64_round x - x\<bar> \<le> pow2 (max (expo \<bar>x\<bar>) (- 1022) - 52) / 2"
proof (cases "x = 0")
  case True
  then show ?thesis using pow2_pos [of "max (expo \<bar>x\<bar>) (- 1022) - 52"] by (simp add: b64_round_def)
next
  case False
  define u where "u = pow2 (max (expo \<bar>x\<bar>) (- 1022) - 52)"
  have u: "0 < u" by (simp add: u_def pow2_pos)
  have "b64_round x - x = (real_of_int (round_even (x / u)) - x / u) * u"
    using False u by (simp add: b64_round_def Let_def u_def [symmetric] field_simps)
  then have "\<bar>b64_round x - x\<bar> = \<bar>real_of_int (round_even (x / u)) - x / u\<bar> * u"
    using u by (simp add: abs_mult)
  also have "\<dots> \<le> (1 / 2) * u"
    using round_even_nearest [of "x / u"] u by (intro mult_right_mono) simp_all
  finally show ?thesis by (simp add: u_def)
qed

lemmas b64_eval = b64_round_def expo_def ilog2.simps pow2_def round_even_def Let_def

text \<open>
  The rounding on some numbers: 0.1 and 0.95 are rounded to their binary64 neighbours, a
  binary64 number is kept, and of the two ties \<open>2 ^ 53 + 1\<close> and \<open>2 ^ 53 + 3\<close> the first is rounded
  down and the second up, to the even significand.
\<close>

lemma b64_round_examples:
  "b64_round (1 / 10) = 3602879701896397 / 36028797018963968"
  "b64_round (95 / 100) = 4278419646001971 / 4503599627370496"
  "b64_round (8669429282688205 / 1125899906842624) = 8669429282688205 / 1125899906842624"
  "b64_round 9007199254740993 = 9007199254740992"
  "b64_round 9007199254740995 = 9007199254740996"
  "b64_round (- 1 / 10) = - 3602879701896397 / 36028797018963968"
  by (simp_all add: b64_eval)




section \<open>The report: properties\<close>

lemma foldl_plus_sum_list: "foldl (+) a xs = a + sum_list (xs :: real list)"
  by (induction xs arbitrary: a) simp_all

lemma sum_list_sort: "sum_list (sort xs) = sum_list (xs :: real list)"
proof -
  have "sum_list (sort xs) = sum_mset (mset (sort xs))" by (simp only: sum_mset_sum_list)
  also have "\<dots> = sum_mset (mset xs)" by simp
  also have "\<dots> = sum_list xs" by (simp only: sum_mset_sum_list)
  finally show ?thesis .
qed

lemma percentile_sorted_spec:
  assumes "samples \<noteq> []" "0 \<le> p" "p \<le> 100"
  shows "percentile (sort samples) p = Inr (spec_percentile (sort samples) p)"
proof -
  have "sort samples \<noteq> []"
    using assms(1) by (metis length_sort length_0_conv)
  then show ?thesis
    using assms(2,3) by (intro percentile_eq_spec) simp_all
qed

lemma print_stats_empty: "latencies_us s = [] \<Longrightarrow> print_stats f s = Inr s"
  by (simp add: print_stats_def)

lemma print_stats_report:
  assumes "latencies_us s \<noteq> []"
  shows "print_stats f s = Inr (emit Stdout (spec_stats f (latencies_us s)) s)"
proof -
  have "percentile (sort (latencies_us s)) 50 = Inr (spec_percentile (sort (latencies_us s)) 50)"
       "percentile (sort (latencies_us s)) 95 = Inr (spec_percentile (sort (latencies_us s)) 95)"
       "percentile (sort (latencies_us s)) 99 = Inr (spec_percentile (sort (latencies_us s)) 99)"
    using assms by (simp_all add: percentile_sorted_spec)
  then show ?thesis
    using assms
    by (simp add: print_stats_def Let_def spec_stats_def foldl_plus_sum_list sum_list_sort)
qed

lemma emit_fields [simp]:
  "latencies_us (emit st m s) = latencies_us s"
  "total_events (emit st m s) = total_events s"
  "measured_events (emit st m s) = measured_events s"
  "out (emit st m s) = out s @ [(st, m)]"
  by (simp_all add: emit_def)

lemma print_stats_frame:
  "\<exists>r. print_stats f s = Inr (s\<lparr>out := out s @ r\<rparr>)"
proof (cases "latencies_us s = []")
  case True
  then have "print_stats f s = Inr (s\<lparr>out := out s @ []\<rparr>)" by (simp add: print_stats_empty)
  then show ?thesis ..
next
  case False
  then have "print_stats f s = Inr (s\<lparr>out := out s @ [(Stdout, spec_stats f (latencies_us s))]\<rparr>)"
    by (simp add: print_stats_report emit_def)
  then show ?thesis ..
qed

text \<open>
  Claim C9. The stats computation leaves the accumulator (and the counters) as they were, and
  a second invocation on the unchanged sample list reports the same count, average, p50, p95
  and p99 as the first: it appends to the output the very block \<open>r\<close> the first one wrote.
\<close>

theorem print_stats_idempotent:
  "\<exists>s' r. print_stats f s = Inr s'
     \<and> latencies_us s' = latencies_us s
     \<and> total_events s' = total_events s
     \<and> measured_events s' = measured_events s
     \<and> out s' = out s @ r
     \<and> print_stats f s' = Inr (s'\<lparr>out := out s' @ r\<rparr>)"
proof (cases "latencies_us s = []")
  case True
  then have "print_stats f s = Inr s \<and> out s = out s @ [] \<and> print_stats f s = Inr (s\<lparr>out := out s @ []\<rparr>)"
    by (simp add: print_stats_empty)
  then show ?thesis by blast
next
  case False
  define r where "r = [(Stdout, spec_stats f (latencies_us s))]"
  define s' where "s' = s\<lparr>out := out s @ r\<rparr>"
  have 1: "print_stats f s = Inr s'"
    using False by (simp add: print_stats_report emit_def s'_def r_def)
  have l: "latencies_us s' = latencies_us s" by (simp add: s'_def)
  then have "print_stats f s' = Inr (s'\<lparr>out := out s' @ r\<rparr>)"
    using False by (simp add: print_stats_report emit_def r_def)
  with 1 l show ?thesis by (auto simp: s'_def)
qed

theorem print_stats_idempotent_witness:
  "print_stats False \<lparr>latencies_us = [30, 10, 20], total_events = 5, measured_events = 3, out = []\<rparr>
     = Inr \<lparr>latencies_us = [30, 10, 20], total_events = 5, measured_events = 3,
            out = [(Stdout, Stats False 3 20 20 29 (149 / 5))]\<rparr>
   \<and> print_stats False \<lparr>latencies_us = [30, 10, 20], total_events = 5, measured_events = 3,
            out = [(Stdout, Stats False 3 20 20 29 (149 / 5))]\<rparr>
     = Inr \<lparr>latencies_us = [30, 10, 20], total_events = 5, measured_events = 3,
            out = [(Stdout, Stats False 3 20 20 29 (149 / 5)), (Stdout, Stats False 3 20 20 29 (149 / 5))]\<rparr>"
proof -
  let ?s = "\<lparr>latencies_us = [30, 10, 20], total_events = 5, measured_events = 3, out = []\<rparr>"
  obtain s' r where a: "print_stats False ?s = Inr s'" "out s' = out ?s @ r"
    "print_stats False s' = Inr (s'\<lparr>out := out s' @ r\<rparr>)"
    using print_stats_idempotent [of False ?s] by blast
  have b: "print_stats False ?s = Inr (?s\<lparr>out := [(Stdout, Stats False 3 20 20 29 (149 / 5))]\<rparr>)"
    by (simp add: print_stats_def percentile_def vec_at_def Let_def emit_def)
  with a(1) have s': "s' = ?s\<lparr>out := [(Stdout, Stats False 3 20 20 29 (149 / 5))]\<rparr>" by simp
  with a(2) have "r = [(Stdout, Stats False 3 20 20 29 (149 / 5))]" by simp
  with a(3) s' b show ?thesis by simp
qed

section \<open>The sampler: properties\<close>

lemma unat_sub_le: "b \<le> a \<Longrightarrow> unat (a - b) = unat a - unat (b :: 64 word)"
  by (simp add: unat_sub)

lemma delta_ns_nonneg:
  "0 \<le> delta_ns e \<longleftrightarrow> tv_to_ns (ev_time (fst e)) \<le> ts_to_ns (snd e)"
  by (simp add: delta_ns_def word_le_def)

lemma delta_us_eq:
  assumes "tv_to_ns (ev_time (fst e)) \<le> ts_to_ns (snd e)"
  shows "real (unat (ts_to_ns (snd e) - tv_to_ns (ev_time (fst e)))) / 1000
           = real_of_int (delta_ns e) / 1000"
proof -
  have "uint (ts_to_ns (snd e) - tv_to_ns (ev_time (fst e))) = delta_ns e"
    using assms by (simp add: delta_ns_def uint_sub_if' word_le_def)
  moreover have "0 \<le> delta_ns e" using assms by (simp add: delta_ns_nonneg)
  ultimately show ?thesis by (simp add: unat_eq_nat_uint)
qed

lemma process_event_skip:
  assumes "\<not> measure_ev (fst e)"
  shows "process_event quiet s e = Inr (s\<lparr>total_events := total_events s + 1\<rparr>)"
  using assms by (simp add: process_event_def Let_def)

lemma process_event_discard:
  assumes "measure_ev (fst e)" and "delta_ns e < 0"
  shows "process_event quiet s e = Inr (s\<lparr>total_events := total_events s + 1\<rparr>)"
proof -
  have "\<not> tv_to_ns (ev_time (fst e)) \<le> ts_to_ns (snd e)"
    using assms(2) delta_ns_nonneg [of e] by simp
  then show ?thesis using assms(1) by (simp add: process_event_def Let_def)
qed

lemma process_event_sample:
  assumes "measure_ev (fst e)" and "0 \<le> delta_ns e"
  shows "\<exists>r. process_event quiet s e =
           Inr (s\<lparr>latencies_us := latencies_us s @ [real_of_int (delta_ns e) / 1000],
                   total_events := total_events s + 1,
                   measured_events := measured_events s + 1,
                   out := out s @ r\<rparr>)"
proof -
  obtain l t m ou where s: "s = \<lparr>latencies_us = l, total_events = t, measured_events = m, out = ou\<rparr>"
    by (cases s) simp
  let ?d = "real_of_int (delta_ns e) / 1000"
  have le: "tv_to_ns (ev_time (fst e)) \<le> ts_to_ns (snd e)"
    using assms(2) by (simp add: delta_ns_nonneg)
  note d = delta_us_eq [OF le]
  show ?thesis
  proof (cases quiet)
    case True
    then have "process_event quiet s e =
        Inr \<lparr>latencies_us = l @ [?d], total_events = t + 1, measured_events = m + 1, out = ou @ []\<rparr>"
      using assms(1) le d by (simp add: process_event_def Let_def s)
    then show ?thesis by (intro exI [of _ "[]"]) (simp add: s)
  next
    case False
    let ?l = "(Stdout, Event_line (ev_type_to_str (ev_type (fst e))) (ev_code (fst e)) (ev_value (fst e)) ?d)"
    let ?s3 = "\<lparr>latencies_us = l @ [?d], total_events = t + 1, measured_events = m + 1, out = ou @ [?l]\<rparr>"
    obtain r where r: "print_stats False ?s3 = Inr (?s3\<lparr>out := out ?s3 @ r\<rparr>)"
      using print_stats_frame [of False ?s3] by blast
    show ?thesis
    proof (cases "(m + 1) mod 50 = 0")
      case m: True
      have "process_event quiet s e = print_stats False ?s3"
        using False m assms(1) le d by (simp add: process_event_def Let_def emit_def s)
      with r have "process_event quiet s e = Inr (?s3\<lparr>out := ou @ (?l # r)\<rparr>)" by simp
      then show ?thesis by (intro exI [of _ "?l # r"]) (simp add: s)
    next
      case m: False
      have "process_event quiet s e = Inr ?s3"
        using False m assms(1) le d by (simp add: process_event_def Let_def emit_def s)
      then show ?thesis by (intro exI [of _ "[?l]"]) (simp add: s)
    qed
  qed
qed


lemma spec_samples_Nil [simp]: "spec_samples [] = []"
  by (simp add: spec_samples_def)

lemma spec_samples_Cons:
  "spec_samples (e # es) =
     (if measure_ev (fst e) \<and> 0 \<le> delta_ns e then [real_of_int (delta_ns e) / 1000] else [])
     @ spec_samples es"
  by (simp add: spec_samples_def)

lemma spec_samples_nonneg: "x \<in> set (spec_samples es) \<Longrightarrow> 0 \<le> x"
  by (auto simp: spec_samples_def)

lemma length_spec_samples: "length (spec_samples es) \<le> length es"
  by (simp add: spec_samples_def)

lemma process_event_shape:
  "\<exists>s' r. process_event quiet s e = Inr s'
     \<and> latencies_us s' = latencies_us s @ spec_samples [e]
     \<and> total_events s' = total_events s + 1
     \<and> measured_events s' = measured_events s + length (spec_samples [e])
     \<and> out s' = out s @ r"
proof (cases "measure_ev (fst e) \<and> 0 \<le> delta_ns e")
  case True
  then obtain r where "process_event quiet s e =
           Inr (s\<lparr>latencies_us := latencies_us s @ [real_of_int (delta_ns e) / 1000],
                   total_events := total_events s + 1,
                   measured_events := measured_events s + 1,
                   out := out s @ r\<rparr>)"
    using process_event_sample [of e quiet s] by blast
  with True show ?thesis by (simp add: spec_samples_Cons)
next
  case False
  then have "process_event quiet s e = Inr (s\<lparr>total_events := total_events s + 1\<rparr>)"
    using process_event_skip [of e quiet s] process_event_discard [of e quiet s] by fastforce
  with False show ?thesis by (simp add: spec_samples_Cons)
qed

lemma process_batch_shape:
  "\<exists>s' r. process_batch quiet s es = Inr s'
     \<and> latencies_us s' = latencies_us s @ spec_samples es
     \<and> total_events s' = total_events s + length es
     \<and> measured_events s' = measured_events s + length (spec_samples es)
     \<and> out s' = out s @ r"
proof (induction es arbitrary: s)
  case Nil
  then show ?case by simp
next
  case (Cons e es)
  obtain s1 r1 where 1: "process_event quiet s e = Inr s1"
    "latencies_us s1 = latencies_us s @ spec_samples [e]"
    "total_events s1 = total_events s + 1"
    "measured_events s1 = measured_events s + length (spec_samples [e])"
    "out s1 = out s @ r1"
    using process_event_shape [of quiet s e] by blast
  obtain s2 r2 where 2: "process_batch quiet s1 es = Inr s2"
    "latencies_us s2 = latencies_us s1 @ spec_samples es"
    "total_events s2 = total_events s1 + length es"
    "measured_events s2 = measured_events s1 + length (spec_samples es)"
    "out s2 = out s1 @ r2"
    using Cons.IH [of s1] by blast
  have "spec_samples (e # es) = spec_samples [e] @ spec_samples es"
    by (simp add: spec_samples_Cons)
  with 1 2 have "process_batch quiet s (e # es) = Inr s2
     \<and> latencies_us s2 = latencies_us s @ spec_samples (e # es)
     \<and> total_events s2 = total_events s + length (e # es)
     \<and> measured_events s2 = measured_events s + length (spec_samples (e # es))
     \<and> out s2 = out s @ (r1 @ r2)"
    by simp
  then show ?case by blast
qed

text \<open>
  Claim C3. For a Measurable record, the sample \<open>(now_ns - evt_ns) / 1000\<close> is appended and
  the measured count incremented if and only if \<open>now_ns \<ge> evt_ns\<close>; otherwise the record is
  dropped without a message or an error and the accumulator and the measured count stay as
  they were. The total count grows by one either way, and an accumulator without a negative
  sample has none afterwards.
\<close>

theorem sample_iff_nonnegative_delta:
  assumes "measure_ev ev"
  shows "\<exists>s'. process_event quiet s (ev, now_ts) = Inr s'
     \<and> total_events s' = total_events s + 1
     \<and> (if tv_to_ns (ev_time ev) \<le> ts_to_ns now_ts
        then latencies_us s' = latencies_us s @
               [(real (unat (ts_to_ns now_ts)) - real (unat (tv_to_ns (ev_time ev)))) / 1000]
             \<and> measured_events s' = measured_events s + 1
        else latencies_us s' = latencies_us s
             \<and> measured_events s' = measured_events s
             \<and> out s' = out s)
     \<and> ((\<forall>x\<in>set (latencies_us s). 0 \<le> x) \<longrightarrow> (\<forall>x\<in>set (latencies_us s'). 0 \<le> x))"
proof -
  let ?e = "(ev, now_ts)"
  have m: "measure_ev (fst ?e)" using assms by simp
  show ?thesis
  proof (cases "tv_to_ns (ev_time ev) \<le> ts_to_ns now_ts")
    case True
    then have d0: "0 \<le> delta_ns ?e" by (simp add: delta_ns_nonneg)
    have "unat (tv_to_ns (ev_time ev)) \<le> unat (ts_to_ns now_ts)"
      using True by (simp add: word_le_nat_alt)
    then have d: "real_of_int (delta_ns ?e) = real (unat (ts_to_ns now_ts)) - real (unat (tv_to_ns (ev_time ev)))"
      by (simp add: delta_ns_def)
    obtain r where "process_event quiet s ?e =
           Inr (s\<lparr>latencies_us := latencies_us s @ [real_of_int (delta_ns ?e) / 1000],
                   total_events := total_events s + 1,
                   measured_events := measured_events s + 1,
                   out := out s @ r\<rparr>)"
      using process_event_sample [OF m d0, of quiet s] by blast
    with True d d0 show ?thesis by auto
  next
    case False
    then have "delta_ns ?e < 0" using delta_ns_nonneg [of ?e] by simp
    from process_event_discard [OF m this, of quiet s] False show ?thesis by simp
  qed
qed


theorem sample_iff_nonnegative_delta_witness:
  "process_event True \<lparr>latencies_us = [], total_events = 0, measured_events = 0, out = []\<rparr>
     (\<lparr>ev_time = \<lparr>tv_sec = 5, tv_usec = 7\<rparr>, ev_type = EV_KEY, ev_code = 30, ev_value = 1\<rparr>,
      \<lparr>ts_sec = 5, ts_nsec = 9500\<rparr>)
   = Inr \<lparr>latencies_us = [5 / 2], total_events = 1, measured_events = 1, out = []\<rparr>
   \<and> tv_to_ns \<lparr>tv_sec = 5, tv_usec = 7\<rparr> \<le> ts_to_ns \<lparr>ts_sec = 5, ts_nsec = 9500\<rparr>"
proof -
  let ?ev = "\<lparr>ev_time = \<lparr>tv_sec = 5, tv_usec = 7\<rparr>, ev_type = EV_KEY, ev_code = 30, ev_value = 1\<rparr>"
  let ?now = "\<lparr>ts_sec = 5, ts_nsec = 9500\<rparr>"
  let ?s = "\<lparr>latencies_us = [], total_events = 0, measured_events = 0, out = []\<rparr>"
  have m: "measure_ev ?ev" by (simp add: measure_ev_def)
  have tv: "tv_to_ns \<lparr>tv_sec = 5, tv_usec = 7\<rparr> = 5000007000" by (simp add: tv_to_ns_def)
  have ts: "ts_to_ns ?now = 5000009500" by (simp add: ts_to_ns_def)
  have le: "tv_to_ns \<lparr>tv_sec = 5, tv_usec = 7\<rparr> \<le> ts_to_ns ?now" by (simp add: tv ts)
  have "process_event True ?s (?ev, ?now) = Inr \<lparr>latencies_us = [5 / 2], total_events = 1, measured_events = 1, out = []\<rparr>"
    using m by (simp add: process_event_def Let_def tv ts)
  moreover obtain s' where "process_event True ?s (?ev, ?now) = Inr s'"
    "total_events s' = total_events ?s + 1"
    using sample_iff_nonnegative_delta [OF m, of True ?s ?now] by auto
  ultimately show ?thesis using le by simp
qed

lemma ts_to_ns_at: "ts_to_ns \<lparr>ts_sec = 0, ts_nsec = w\<rparr> = w"
  by (simp add: ts_to_ns_def)

lemma process_event_timed_iff:
  "(\<exists>now_ts s'. process_event quiet s (ev, now_ts) = Inr s'
       \<and> measured_events s' = measured_events s + 1
       \<and> length (latencies_us s') = length (latencies_us s) + 1)
   \<longleftrightarrow> measure_ev ev"
proof
  assume "\<exists>now_ts s'. process_event quiet s (ev, now_ts) = Inr s'
       \<and> measured_events s' = measured_events s + 1
       \<and> length (latencies_us s') = length (latencies_us s) + 1"
  then obtain now_ts s' where a: "process_event quiet s (ev, now_ts) = Inr s'"
    "measured_events s' = measured_events s + 1" by blast
  show "measure_ev ev"
  proof (rule ccontr)
    assume "\<not> measure_ev ev"
    then have "process_event quiet s (ev, now_ts) = Inr (s\<lparr>total_events := total_events s + 1\<rparr>)"
      using process_event_skip [of "(ev, now_ts)" quiet s] by simp
    with a(1) have "s' = s\<lparr>total_events := total_events s + 1\<rparr>" by simp
    then have "measured_events s' = measured_events s" by simp
    with a(2) show False by simp
  qed
next
  assume m: "measure_ev ev"
  let ?now = "\<lparr>ts_sec = 0, ts_nsec = tv_to_ns (ev_time ev)\<rparr>"
  let ?e = "(ev, ?now)"
  have "0 \<le> delta_ns ?e" by (simp add: delta_ns_nonneg ts_to_ns_at)
  with m obtain r where "process_event quiet s ?e =
           Inr (s\<lparr>latencies_us := latencies_us s @ [real_of_int (delta_ns ?e) / 1000],
                   total_events := total_events s + 1,
                   measured_events := measured_events s + 1,
                   out := out s @ r\<rparr>)"
    using process_event_sample [of ?e quiet s] by auto
  then have "\<exists>s'. process_event quiet s ?e = Inr s'
       \<and> measured_events s' = measured_events s + 1
       \<and> length (latencies_us s') = length (latencies_us s) + 1"
    by simp
  then show "\<exists>now_ts s'. process_event quiet s (ev, now_ts) = Inr s'
       \<and> measured_events s' = measured_events s + 1
       \<and> length (latencies_us s') = length (latencies_us s) + 1"
    by blast
qed

lemma process_event_timed:
  assumes "measure_ev ev" and "tv_to_ns (ev_time ev) \<le> ts_to_ns now_ts"
  shows "\<exists>s'. process_event quiet s (ev, now_ts) = Inr s'
     \<and> latencies_us s' = latencies_us s
          @ [real (unat (ts_to_ns now_ts - tv_to_ns (ev_time ev))) / 1000]
     \<and> measured_events s' = measured_events s + 1
     \<and> total_events s' = total_events s + 1"
proof -
  let ?e = "(ev, now_ts)"
  have le: "tv_to_ns (ev_time (fst ?e)) \<le> ts_to_ns (snd ?e)" using assms(2) by simp
  then have d0: "0 \<le> delta_ns ?e" by (simp add: delta_ns_nonneg)
  have d: "real (unat (ts_to_ns now_ts - tv_to_ns (ev_time ev))) = real_of_int (delta_ns ?e)"
    using delta_us_eq [OF le] by simp
  obtain r where "process_event quiet s ?e =
           Inr (s\<lparr>latencies_us := latencies_us s @ [real_of_int (delta_ns ?e) / 1000],
                   total_events := total_events s + 1,
                   measured_events := measured_events s + 1,
                   out := out s @ r\<rparr>)"
    using process_event_sample [of ?e quiet s] assms(1) d0 by auto
  then show ?thesis using d by simp
qed

text \<open>
  Claim C5. A record is Measurable, and with that eligible for the latency computation, if and
  only if its type is \<open>EV_KEY\<close>, \<open>EV_ABS\<close>, \<open>EV_REL\<close> or \<open>EV_MSC\<close>:
  \<^item> there is a clock value at which the record is timed (a sample appended and the measured
    count incremented) exactly when its type is one of the four;
  \<^item> a record of one of the four types is timed whenever the clock is not behind its timestamp,
    with the sample \<open>(now_ns - evt_ns) / 1000\<close>;
  \<^item> a record of any other type, \<open>EV_SYN\<close> among them, only increments the total count, whatever
    its timestamp and the clock are.
\<close>

theorem measurable_iff_type:
  "(measure_ev ev \<longleftrightarrow> ev_type ev \<in> {EV_KEY, EV_ABS, EV_REL, EV_MSC})
   \<and> ((\<exists>now_ts s'. process_event quiet s (ev, now_ts) = Inr s'
           \<and> measured_events s' = measured_events s + 1
           \<and> length (latencies_us s') = length (latencies_us s) + 1)
        \<longleftrightarrow> ev_type ev \<in> {EV_KEY, EV_ABS, EV_REL, EV_MSC})
   \<and> (ev_type ev \<in> {EV_KEY, EV_ABS, EV_REL, EV_MSC}
          \<and> tv_to_ns (ev_time ev) \<le> ts_to_ns now_ts \<longrightarrow>
        (\<exists>s'. process_event quiet s (ev, now_ts) = Inr s'
           \<and> latencies_us s' = latencies_us s
                @ [real (unat (ts_to_ns now_ts - tv_to_ns (ev_time ev))) / 1000]
           \<and> measured_events s' = measured_events s + 1
           \<and> total_events s' = total_events s + 1))
   \<and> EV_SYN \<notin> {EV_KEY, EV_ABS, EV_REL, EV_MSC}
   \<and> (ev_type ev \<notin> {EV_KEY, EV_ABS, EV_REL, EV_MSC} \<longrightarrow>
        process_event quiet s (ev, now_ts) = Inr (s\<lparr>total_events := total_events s + 1\<rparr>))"
proof -
  have t: "measure_ev ev \<longleftrightarrow> ev_type ev \<in> {EV_KEY, EV_ABS, EV_REL, EV_MSC}"
    by (auto simp: measure_ev_def)
  have syn: "EV_SYN \<notin> {EV_KEY, EV_ABS, EV_REL, EV_MSC}"
    by (simp add: EV_SYN_def EV_KEY_def EV_ABS_def EV_REL_def EV_MSC_def)
  have skip: "\<not> measure_ev ev \<longrightarrow>
        process_event quiet s (ev, now_ts) = Inr (s\<lparr>total_events := total_events s + 1\<rparr>)"
    using process_event_skip [of "(ev, now_ts)" quiet s] by simp
  show ?thesis
    using syn skip process_event_timed_iff [of quiet s ev] process_event_timed [of ev now_ts quiet s]
    unfolding t by blast
qed

theorem measurable_iff_type_witness:
  "process_event True \<lparr>latencies_us = [], total_events = 4, measured_events = 0, out = []\<rparr>
       (\<lparr>ev_time = \<lparr>tv_sec = 1, tv_usec = 0\<rparr>, ev_type = EV_REL, ev_code = 0, ev_value = 3\<rparr>,
        \<lparr>ts_sec = 1, ts_nsec = 7000\<rparr>)
     = Inr \<lparr>latencies_us = [7], total_events = 5, measured_events = 1, out = []\<rparr>
   \<and> process_event True \<lparr>latencies_us = [], total_events = 4, measured_events = 0, out = []\<rparr>
       (\<lparr>ev_time = \<lparr>tv_sec = 1, tv_usec = 0\<rparr>, ev_type = EV_SYN, ev_code = 0, ev_value = 0\<rparr>,
        \<lparr>ts_sec = 1, ts_nsec = 7000\<rparr>)
     = Inr \<lparr>latencies_us = [], total_events = 5, measured_events = 0, out = []\<rparr>"
proof -
  let ?s = "\<lparr>latencies_us = [], total_events = 4, measured_events = 0, out = []\<rparr>"
  let ?rel = "\<lparr>ev_time = \<lparr>tv_sec = 1, tv_usec = 0\<rparr>, ev_type = EV_REL, ev_code = 0, ev_value = 3\<rparr>"
  let ?syn = "\<lparr>ev_time = \<lparr>tv_sec = 1, tv_usec = 0\<rparr>, ev_type = EV_SYN, ev_code = 0, ev_value = 0\<rparr>"
  let ?now = "\<lparr>ts_sec = 1, ts_nsec = 7000\<rparr>"
  have tv: "tv_to_ns \<lparr>tv_sec = 1, tv_usec = 0\<rparr> = 1000000000" by (simp add: tv_to_ns_def)
  have ts: "ts_to_ns ?now = 1000007000" by (simp add: ts_to_ns_def)
  have in4: "ev_type ?rel \<in> {EV_KEY, EV_ABS, EV_REL, EV_MSC}" by simp
  have le: "tv_to_ns (ev_time ?rel) \<le> ts_to_ns ?now" by (simp add: tv ts)
  have out4: "ev_type ?syn \<notin> {EV_KEY, EV_ABS, EV_REL, EV_MSC}"
    by (simp add: EV_SYN_def EV_KEY_def EV_ABS_def EV_REL_def EV_MSC_def)
  have v: "real (unat (ts_to_ns ?now - tv_to_ns (ev_time ?rel))) / 1000 = 7" by (simp add: tv ts)
  obtain s' where s': "process_event True ?s (?rel, ?now) = Inr s'"
    "latencies_us s' = latencies_us ?s @ [real (unat (ts_to_ns ?now - tv_to_ns (ev_time ?rel))) / 1000]"
    "measured_events s' = measured_events ?s + 1" "total_events s' = total_events ?s + 1"
    using measurable_iff_type [of ?rel True ?s ?now] in4 le by blast
  have q: "process_event True ?s (?rel, ?now) = Inr \<lparr>latencies_us = [7], total_events = 5, measured_events = 1, out = []\<rparr>"
    using le by (simp add: process_event_def Let_def measure_ev_def tv ts)
  have "process_event True ?s (?syn, ?now) = Inr (?s\<lparr>total_events := total_events ?s + 1\<rparr>)"
    using measurable_iff_type [of ?syn True ?s ?now] out4 by blast
  then have "process_event True ?s (?syn, ?now) = Inr \<lparr>latencies_us = [], total_events = 5, measured_events = 0, out = []\<rparr>"
    by simp
  with q s'(1) show ?thesis by (simp only: simp_thms)
qed

text \<open>
  Claim C4. After a batch of records, the accumulator holds, besides what it held before,
  exactly the samples of the Measurable records whose delta is not negative, none of them
  negative, and the measured count has grown by their number. The report over an accumulator
  that was empty before the batch therefore has their number as its count, their arithmetic mean
  as its average, and the percentiles of their sorted list; a negative delta is in none of them.
\<close>

theorem report_over_nonnegative_deltas:
  "\<exists>s'. process_batch quiet s es = Inr s'
     \<and> latencies_us s' = latencies_us s @ spec_samples es
     \<and> measured_events s' = measured_events s + length (spec_samples es)
     \<and> (\<forall>x\<in>set (spec_samples es). 0 \<le> x)
     \<and> (latencies_us s = [] \<and> spec_samples es \<noteq> [] \<longrightarrow>
          print_stats final s' = Inr (emit Stdout (spec_stats final (spec_samples es)) s'))"
proof -
  obtain s' where s': "process_batch quiet s es = Inr s'"
    "latencies_us s' = latencies_us s @ spec_samples es"
    "measured_events s' = measured_events s + length (spec_samples es)"
    using process_batch_shape [of quiet s es] by blast
  have "latencies_us s = [] \<and> spec_samples es \<noteq> [] \<longrightarrow>
          print_stats final s' = Inr (emit Stdout (spec_stats final (spec_samples es)) s')"
    using s'(2) print_stats_report [of s' final] by auto
  with s' spec_samples_nonneg show ?thesis by blast
qed

theorem report_over_nonnegative_deltas_witness:
  "process_batch True \<lparr>latencies_us = [], total_events = 0, measured_events = 0, out = []\<rparr>
     [(\<lparr>ev_time = \<lparr>tv_sec = 1, tv_usec = 0\<rparr>, ev_type = EV_KEY, ev_code = 30, ev_value = 1\<rparr>,
       \<lparr>ts_sec = 1, ts_nsec = 10000\<rparr>),
      (\<lparr>ev_time = \<lparr>tv_sec = 3, tv_usec = 0\<rparr>, ev_type = EV_KEY, ev_code = 30, ev_value = 0\<rparr>,
       \<lparr>ts_sec = 2, ts_nsec = 0\<rparr>),
      (\<lparr>ev_time = \<lparr>tv_sec = 2, tv_usec = 5\<rparr>, ev_type = EV_REL, ev_code = 0, ev_value = 4\<rparr>,
       \<lparr>ts_sec = 2, ts_nsec = 15000\<rparr>),
      (\<lparr>ev_time = \<lparr>tv_sec = 2, tv_usec = 5\<rparr>, ev_type = EV_SYN, ev_code = 0, ev_value = 0\<rparr>,
       \<lparr>ts_sec = 2, ts_nsec = 16000\<rparr>),
      (\<lparr>ev_time = \<lparr>tv_sec = 4, tv_usec = 0\<rparr>, ev_type = EV_ABS, ev_code = 1, ev_value = 9\<rparr>,
       \<lparr>ts_sec = 4, ts_nsec = 10000\<rparr>)]
   = Inr \<lparr>latencies_us = [10, 10, 10], total_events = 5, measured_events = 3, out = []\<rparr>
   \<and> print_stats True \<lparr>latencies_us = [10, 10, 10], total_events = 5, measured_events = 3, out = []\<rparr>
   = Inr \<lparr>latencies_us = [10, 10, 10], total_events = 5, measured_events = 3,
          out = [(Stdout, Stats True 3 10 10 10 10)]\<rparr>"
proof -
  let ?s = "\<lparr>latencies_us = [], total_events = 0, measured_events = 0, out = []\<rparr>"
  let ?es = "[(\<lparr>ev_time = \<lparr>tv_sec = 1, tv_usec = 0\<rparr>, ev_type = EV_KEY, ev_code = 30, ev_value = 1\<rparr>,
       \<lparr>ts_sec = 1, ts_nsec = 10000\<rparr>),
      (\<lparr>ev_time = \<lparr>tv_sec = 3, tv_usec = 0\<rparr>, ev_type = EV_KEY, ev_code = 30, ev_value = 0\<rparr>,
       \<lparr>ts_sec = 2, ts_nsec = 0\<rparr>),
      (\<lparr>ev_time = \<lparr>tv_sec = 2, tv_usec = 5\<rparr>, ev_type = EV_REL, ev_code = 0, ev_value = 4\<rparr>,
       \<lparr>ts_sec = 2, ts_nsec = 15000\<rparr>),
      (\<lparr>ev_time = \<lparr>tv_sec = 2, tv_usec = 5\<rparr>, ev_type = EV_SYN, ev_code = 0, ev_value = 0\<rparr>,
       \<lparr>ts_sec = 2, ts_nsec = 16000\<rparr>),
      (\<lparr>ev_time = \<lparr>tv_sec = 4, tv_usec = 0\<rparr>, ev_type = EV_ABS, ev_code = 1, ev_value = 9\<rparr>,
       \<lparr>ts_sec = 4, ts_nsec = 10000\<rparr>)]"
  have sm: "spec_samples ?es = [10, 10, 10]"
    by (simp add: spec_samples_def delta_ns_def measure_ev_def tv_to_ns_def ts_to_ns_def
        EV_SYN_def EV_KEY_def EV_ABS_def EV_REL_def EV_MSC_def)
  have st: "spec_stats True [10, 10, 10] = Stats True 3 10 10 10 10"
    by (simp add: spec_stats_def spec_percentile_def Let_def)
  let ?r = "\<lparr>latencies_us = [10, 10, 10], total_events = 5, measured_events = 3, out = []\<rparr>"
  have b: "process_batch True ?s ?es = Inr ?r"
    by (simp add: process_event_def Let_def measure_ev_def tv_to_ns_def ts_to_ns_def
        EV_SYN_def EV_KEY_def EV_ABS_def EV_REL_def EV_MSC_def)
  obtain s' where a: "process_batch True ?s ?es = Inr s'"
    and c: "latencies_us ?s = [] \<and> spec_samples ?es \<noteq> [] \<longrightarrow>
       print_stats True s' = Inr (emit Stdout (spec_stats True (spec_samples ?es)) s')"
    using report_over_nonnegative_deltas [of True ?s ?es True] by blast
  from a have "s' = ?r" unfolding b by simp
  with c have "print_stats True ?r = Inr (emit Stdout (Stats True 3 10 10 10 10) ?r)"
    unfolding sm st by simp
  then have "print_stats True ?r = Inr (?r\<lparr>out := [(Stdout, Stats True 3 10 10 10 10)]\<rparr>)"
    by (simp add: emit_def)
  then show ?thesis unfolding b by simp
qed

section \<open>The main loop: properties\<close>

lemma final_summaries_append [simp]:
  "final_summaries (a @ b) = final_summaries a @ final_summaries b"
  by (simp add: final_summaries_def)

lemma final_summaries_Nil [simp]: "final_summaries [] = []"
  by (simp add: final_summaries_def)

lemma print_stats_rolling_finals:
  assumes "print_stats False s = Inr s'"
  shows "final_summaries (out s') = final_summaries (out s)"
proof (cases "latencies_us s = []")
  case True
  with assms show ?thesis by (simp add: print_stats_empty)
next
  case False
  with assms show ?thesis
    by (auto simp: print_stats_report spec_stats_def final_summaries_def)
qed

lemma process_event_finals:
  assumes "process_event quiet s e = Inr s'"
  shows "final_summaries (out s') = final_summaries (out s)"
  using assms
  by (auto simp: process_event_def Let_def final_summaries_def
      split: if_splits dest!: print_stats_rolling_finals)

lemma process_batch_finals:
  "process_batch quiet s es = Inr s' \<Longrightarrow> final_summaries (out s') = final_summaries (out s)"
proof (induction es arbitrary: s)
  case Nil
  then show ?case by simp
next
  case (Cons e es)
  then show ?case
    by (auto split: sum.splits dest: process_event_finals)
qed

lemma loop_body_finals:
  assumes "loop_body quiet pr s = Inr (c, s')"
  shows "final_summaries (out s') = final_summaries (out s)"
  using assms
  by (auto simp: loop_body_def final_summaries_def split: poll_res.splits read_res.splits if_splits sum.splits
      dest!: process_batch_finals)

lemma loop_body_shape:
  "\<exists>c s' new k r. loop_body quiet pr s = Inr (c, s')
     \<and> latencies_us s' = latencies_us s @ new
     \<and> length new \<le> k \<and> k \<le> BUF_EV
     \<and> total_events s' = total_events s + k
     \<and> measured_events s' = measured_events s + length new
     \<and> out s' = out s @ r"
proof -
  have keep: "\<exists>new k r. latencies_us s' = latencies_us s @ new
     \<and> length new \<le> k \<and> k \<le> BUF_EV
     \<and> total_events s' = total_events s + k
     \<and> measured_events s' = measured_events s + length new
     \<and> out s' = out s @ r"
    if "latencies_us s' = latencies_us s" "total_events s' = total_events s"
       "measured_events s' = measured_events s" "out s' = out s @ r0" for s' r0
    using that by (intro exI [of _ "[]"] exI [of _ 0] exI [of _ r0]) simp
  show ?thesis
  proof (cases pr)
    case Poll_eintr
    then show ?thesis using keep [of s "[]"] by (simp add: loop_body_def)
  next
    case Poll_failed
    then show ?thesis using keep [of "emit Stderr (Perror ''poll'') s"] by (simp add: loop_body_def)
  next
    case Poll_timeout
    then show ?thesis
      using keep [of s "[]"] keep [of "emit Stdout Idle s"] by (simp add: loop_body_def)
  next
    case (Poll_ready pollin rr)
    show ?thesis
    proof (cases "pollin")
      case False
      with Poll_ready show ?thesis using keep [of s "[]"] by (simp add: loop_body_def)
    next
      case True
      show ?thesis
      proof (cases rr)
        case Read_again
        with Poll_ready True show ?thesis using keep [of s "[]"] by (simp add: loop_body_def)
      next
        case Read_failed
        with Poll_ready True show ?thesis
          using keep [of "emit Stderr (Perror ''read'') s"] by (simp add: loop_body_def)
      next
        case (Read_ok evs)
        obtain s' r where b: "process_batch quiet s (take BUF_EV evs) = Inr s'"
          "latencies_us s' = latencies_us s @ spec_samples (take BUF_EV evs)"
          "total_events s' = total_events s + length (take BUF_EV evs)"
          "measured_events s' = measured_events s + length (spec_samples (take BUF_EV evs))"
          "out s' = out s @ r"
          using process_batch_shape [of quiet s "take BUF_EV evs"] by blast
        have "loop_body quiet pr s = Inr (Continue, s')"
          using Poll_ready True Read_ok b(1) by (simp add: loop_body_def)
        moreover have "length (spec_samples (take BUF_EV evs)) \<le> length (take BUF_EV evs)"
          by (rule length_spec_samples)
        moreover have "length (take BUF_EV evs) \<le> BUF_EV" by simp
        ultimately show ?thesis using b(2-5) by blast
      qed
    qed
  qed
qed

lemma int_of_size_small: "n < 2147483648 \<Longrightarrow> int_of_size n = int n"
  by (simp add: int_of_size_def signed_of_nat signed_take_bit_int_eq_self)

lemma run_loop_Cons_leave:
  assumes "fst it \<or> (limit \<noteq> 0 \<and> \<not> int_of_size (length (latencies_us s)) < limit)"
  shows "run_loop limit quiet (it # rest) s = Inr (Left_loop s)"
  using assms by auto

lemma run_loop_append:
  "run_loop limit quiet (tr @ tr') s =
     (case run_loop limit quiet tr s of
        Inl f \<Rightarrow> Inl f
      | Inr (Running s1) \<Rightarrow> run_loop limit quiet tr' s1
      | Inr (Left_loop s1) \<Rightarrow> Inr (Left_loop s1))"
proof (induction tr arbitrary: s)
  case Nil
  then show ?case by simp
next
  case (Cons it tr)
  show ?case
  proof (cases "\<not> fst it \<and> (limit = 0 \<or> int_of_size (length (latencies_us s)) < limit)")
    case False
    then show ?thesis by auto
  next
    case True
    obtain c s' where b: "loop_body quiet (snd it) s = Inr (c, s')"
      using loop_body_shape [of quiet "snd it" s] by blast
    show ?thesis
    proof (cases c)
      case Continue
      with True b Cons.IH [of s'] show ?thesis by simp
    next
      case Break
      with True b show ?thesis by simp
    qed
  qed
qed


lemma grown_refl [simp]: "grown s s"
  by (simp add: grown_def)

lemma grown_trans: "grown a b \<Longrightarrow> grown b c \<Longrightarrow> grown a c"
  by (auto simp: grown_def)

lemma loop_body_grown:
  "\<exists>c s'. loop_body quiet pr s = Inr (c, s') \<and> grown s s'
     \<and> (counters_ok s \<longrightarrow> counters_ok s')"
proof -
  obtain c s' new k r where "loop_body quiet pr s = Inr (c, s')"
     "latencies_us s' = latencies_us s @ new" "length new \<le> k"
     "total_events s' = total_events s + k"
     "measured_events s' = measured_events s + length new"
    using loop_body_shape [of quiet pr s] by blast
  then have "loop_body quiet pr s = Inr (c, s') \<and> grown s s' \<and> (counters_ok s \<longrightarrow> counters_ok s')"
    by (simp add: grown_def counters_ok_def)
  then show ?thesis by blast
qed

lemma process_event_grown:
  "\<exists>s'. process_event quiet s e = Inr s' \<and> grown s s' \<and> (counters_ok s \<longrightarrow> counters_ok s')"
proof -
  obtain s' r where "process_event quiet s e = Inr s'"
    "latencies_us s' = latencies_us s @ spec_samples [e]"
    "total_events s' = total_events s + 1"
    "measured_events s' = measured_events s + length (spec_samples [e])"
    using process_event_shape [of quiet s e] by blast
  moreover have "length (spec_samples [e]) \<le> 1"
    using length_spec_samples [of "[e]"] by simp
  ultimately have "process_event quiet s e = Inr s' \<and> grown s s' \<and> (counters_ok s \<longrightarrow> counters_ok s')"
    by (simp add: grown_def counters_ok_def)
  then show ?thesis by blast
qed

lemma run_loop_grown:
  "\<exists>r. run_loop limit quiet tr s = Inr r \<and> grown s (state_of r)
     \<and> (counters_ok s \<longrightarrow> counters_ok (state_of r))"
proof (induction tr arbitrary: s)
  case Nil
  then show ?case by simp
next
  case (Cons it tr)
  show ?case
  proof (cases "\<not> fst it \<and> (limit = 0 \<or> int_of_size (length (latencies_us s)) < limit)")
    case False
    then have "run_loop limit quiet (it # tr) s = Inr (Left_loop s)" by auto
    then show ?thesis by simp
  next
    case True
    obtain c s' where b: "loop_body quiet (snd it) s = Inr (c, s')" "grown s s'"
      "counters_ok s \<longrightarrow> counters_ok s'"
      using loop_body_grown [of quiet "snd it" s] by blast
    show ?thesis
    proof (cases c)
      case Break
      with True b have "run_loop limit quiet (it # tr) s = Inr (Left_loop s')" by simp
      with b show ?thesis by simp
    next
      case Continue
      obtain r where r: "run_loop limit quiet tr s' = Inr r" "grown s' (state_of r)"
        "counters_ok s' \<longrightarrow> counters_ok (state_of r)"
        using Cons.IH [of s'] by blast
      from Continue True b have "run_loop limit quiet (it # tr) s = Inr r" by (simp add: r(1))
      moreover have "grown s (state_of r)" using b(2) r(2) by (rule grown_trans)
      ultimately show ?thesis using b(3) r(3) by blast
    qed
  qed
qed

lemma run_loop_finals:
  "run_loop limit quiet tr s = Inr r \<Longrightarrow> final_summaries (out (state_of r)) = final_summaries (out s)"
proof (induction tr arbitrary: s)
  case Nil
  then show ?case by auto
next
  case (Cons it tr)
  show ?case
  proof (cases "\<not> fst it \<and> (limit = 0 \<or> int_of_size (length (latencies_us s)) < limit)")
    case False
    with Cons.prems have "r = Left_loop s" by auto
    then show ?thesis by simp
  next
    case True
    obtain c s' where b: "loop_body quiet (snd it) s = Inr (c, s')"
      using loop_body_shape [of quiet "snd it" s] by blast
    note f = loop_body_finals [OF b]
    show ?thesis
    proof (cases c)
      case Break
      with True b Cons.prems have "r = Left_loop s'" by simp
      with f show ?thesis by simp
    next
      case Continue
      with True b Cons.prems have "run_loop limit quiet tr s' = Inr r" by simp
      from Cons.IH [OF this] f show ?thesis by simp
    qed
  qed
qed

lemma run_loop_bound:
  assumes "0 < limit" and "limit \<le> 2147483584"
    and "length (latencies_us s) \<le> nat limit + 63"
    and "run_loop limit quiet tr s = Inr r"
  shows "length (latencies_us (state_of r)) \<le> nat limit + 63"
  using assms(3,4)
proof (induction tr arbitrary: s)
  case Nil
  then show ?case by auto
next
  case (Cons it tr)
  show ?case
  proof (cases "\<not> fst it \<and> (limit = 0 \<or> int_of_size (length (latencies_us s)) < limit)")
    case False
    with Cons.prems have "r = Left_loop s" by auto
    with Cons.prems show ?thesis by simp
  next
    case True
    have "length (latencies_us s) < 2147483648" using Cons.prems(1) assms(2) by linarith
    then have "int_of_size (length (latencies_us s)) = int (length (latencies_us s))"
      by (rule int_of_size_small)
    with True assms(1) have less: "length (latencies_us s) < nat limit" by linarith
    obtain c s' new k ro where b: "loop_body quiet (snd it) s = Inr (c, s')"
       "latencies_us s' = latencies_us s @ new" "length new \<le> k" "k \<le> BUF_EV"
      using loop_body_shape [of quiet "snd it" s] by blast
    have bound: "length (latencies_us s') \<le> nat limit + 63"
      using b(2-4) less by (simp add: BUF_EV_def)
    show ?thesis
    proof (cases c)
      case Break
      with True b Cons.prems have "r = Left_loop s'" by simp
      with bound show ?thesis by simp
    next
      case Continue
      with True b Cons.prems have "run_loop limit quiet tr s' = Inr r" by simp
      from Cons.IH [OF bound this] show ?thesis .
    qed
  qed
qed

section \<open>The final report: properties\<close>

lemma finish_empty:
  assumes "latencies_us s = []"
  shows "finish s = (Exit 0, out s @ [(Stdout, No_events),
                                      (Stdout, Totals (total_events s) (measured_events s))])"
  using assms by (simp add: finish_def)

lemma finish_nonempty:
  assumes "latencies_us s \<noteq> []"
  shows "finish s = (Exit 0, out s @ [(Stdout, spec_stats True (latencies_us s)),
                                      (Stdout, Totals (total_events s) (measured_events s))])"
  using assms by (simp add: finish_def print_stats_report)

lemma main_left_loop:
  assumes "args \<noteq> []" and "parse_args (tl args) 0 False = Inr (limit, quiet)" and "open_ok env"
    and "reserve_ok env (if 0 < limit then nat limit else 4096)"
    and "run_loop limit quiet (iterations env) (init_state quiet env (hd args)) = Inr (Left_loop s)"
  shows "main prog args env = finish s"
proof -
  have "\<not> 1 + length args < 2" using assms(1) by (cases args) auto
  then show ?thesis using assms(2-5) by (simp add: main_def)
qed

lemma fst_finish: "fst (finish s) = Exit 0"
  by (cases "latencies_us s = []") (simp_all add: finish_empty finish_nonempty)

lemma counters_ok_init: "counters_ok (init_state quiet env dev)"
  by (simp add: counters_ok_def init_state_def)

lemma final_summaries_init: "final_summaries (out (init_state quiet env dev)) = []"
  by (simp add: init_state_def final_summaries_def)

text \<open>
  Claim C10. The bookkeeping holds at the start of the run and is kept by every record
  processed and by every stretch of the main loop: the measured count is the size of the
  accumulator and is at most the total count; the accumulator is only extended and neither
  counter decreases. Printing a report changes none of them.
\<close>

theorem counters_track_accumulator:
  "counters_ok (init_state quiet env dev)
   \<and> (\<exists>s'. process_event quiet s e = Inr s' \<and> grown s s'
          \<and> (counters_ok s \<longrightarrow> counters_ok s'))
   \<and> (\<exists>r. run_loop limit quiet tr s = Inr r \<and> grown s (state_of r)
          \<and> (counters_ok s \<longrightarrow> counters_ok (state_of r)))
   \<and> (\<exists>s'. print_stats final s = Inr s' \<and> latencies_us s' = latencies_us s
          \<and> total_events s' = total_events s \<and> measured_events s' = measured_events s)"
proof -
  obtain r where "print_stats final s = Inr (s\<lparr>out := out s @ r\<rparr>)"
    using print_stats_frame [of final s] by blast
  then have "\<exists>s'. print_stats final s = Inr s' \<and> latencies_us s' = latencies_us s
          \<and> total_events s' = total_events s \<and> measured_events s' = measured_events s"
    by simp
  then show ?thesis
    using counters_ok_init [of quiet env dev] process_event_grown [of quiet s e]
      run_loop_grown [of limit quiet tr s]
    by blast
qed

theorem counters_track_accumulator_witness:
  "run_loop 0 True
     [(False, Poll_timeout),
      (False, Poll_ready True (Read_ok
         [(\<lparr>ev_time = \<lparr>tv_sec = 1, tv_usec = 0\<rparr>, ev_type = EV_KEY, ev_code = 30, ev_value = 1\<rparr>,
           \<lparr>ts_sec = 1, ts_nsec = 4000\<rparr>),
          (\<lparr>ev_time = \<lparr>tv_sec = 1, tv_usec = 0\<rparr>, ev_type = EV_SYN, ev_code = 0, ev_value = 0\<rparr>,
           \<lparr>ts_sec = 1, ts_nsec = 5000\<rparr>),
          (\<lparr>ev_time = \<lparr>tv_sec = 9, tv_usec = 0\<rparr>, ev_type = EV_MSC, ev_code = 4, ev_value = 2\<rparr>,
           \<lparr>ts_sec = 1, ts_nsec = 6000\<rparr>)])),
      (True, Poll_timeout)]
     \<lparr>latencies_us = [], total_events = 0, measured_events = 0, out = []\<rparr>
   = Inr (Left_loop \<lparr>latencies_us = [4], total_events = 3, measured_events = 1, out = []\<rparr>)
   \<and> counters_ok \<lparr>latencies_us = [4], total_events = 3, measured_events = 1, out = []\<rparr>
   \<and> grown \<lparr>latencies_us = [], total_events = 0, measured_events = 0, out = []\<rparr>
        \<lparr>latencies_us = [4], total_events = 3, measured_events = 1, out = []\<rparr>"
proof -
  let ?s = "\<lparr>latencies_us = [], total_events = 0, measured_events = 0, out = []\<rparr>"
  let ?r = "\<lparr>latencies_us = [4], total_events = 3, measured_events = 1, out = []\<rparr>"
  let ?tr = "[(False, Poll_timeout),
      (False, Poll_ready True (Read_ok
         [(\<lparr>ev_time = \<lparr>tv_sec = 1, tv_usec = 0\<rparr>, ev_type = EV_KEY, ev_code = 30, ev_value = 1\<rparr>,
           \<lparr>ts_sec = 1, ts_nsec = 4000\<rparr>),
          (\<lparr>ev_time = \<lparr>tv_sec = 1, tv_usec = 0\<rparr>, ev_type = EV_SYN, ev_code = 0, ev_value = 0\<rparr>,
           \<lparr>ts_sec = 1, ts_nsec = 5000\<rparr>),
          (\<lparr>ev_time = \<lparr>tv_sec = 9, tv_usec = 0\<rparr>, ev_type = EV_MSC, ev_code = 4, ev_value = 2\<rparr>,
           \<lparr>ts_sec = 1, ts_nsec = 6000\<rparr>)])),
      (True, Poll_timeout)]"
  have run: "run_loop 0 True ?tr ?s = Inr (Left_loop ?r)"
    by (simp add: loop_body_def BUF_EV_def process_event_def Let_def measure_ev_def
        tv_to_ns_def ts_to_ns_def EV_SYN_def EV_KEY_def EV_ABS_def EV_REL_def EV_MSC_def)
  have ok: "counters_ok ?s" by (simp add: counters_ok_def)
  obtain r where r: "run_loop 0 True ?tr ?s = Inr r" "grown ?s (state_of r)"
    "counters_ok ?s \<longrightarrow> counters_ok (state_of r)"
    using counters_track_accumulator [of True "\<lparr>open_ok = True, clockid_ok = True, dev_name = None, reserve_ok = (\<lambda>n. True), iterations = ?tr\<rparr>" "''/dev/input/event3''" ?s "(\<lparr>ev_time = \<lparr>tv_sec = 1, tv_usec = 0\<rparr>, ev_type = EV_SYN, ev_code = 0, ev_value = 0\<rparr>, \<lparr>ts_sec = 1, ts_nsec = 5000\<rparr>)" 0 ?tr True] by blast
  from r(1) have "r = Left_loop ?r" unfolding run by simp
  with r(2,3) ok have "counters_ok ?r" "grown ?s ?r" by simp_all
  with run show ?thesis by (simp only: simp_thms)
qed

text \<open>
  Claim C7. With an empty accumulator the program writes the notice that no measurable event
  was captured, and the totals: no statistics block, no fault, and \<open>print_stats\<close> itself returns
  at once; \<open>percentile\<close> never reads outside its vector, on the empty one it returns 0.
  With at least one sample the final report is written, whatever the settings.
\<close>

theorem final_report_or_notice:
  "(latencies_us s = [] \<longrightarrow>
      finish s = (Exit 0, out s @ [(Stdout, No_events),
                                  (Stdout, Totals (total_events s) (measured_events s))])
      \<and> print_stats final s = Inr s)
   \<and> (latencies_us s \<noteq> [] \<longrightarrow>
      finish s = (Exit 0, out s @ [(Stdout, spec_stats True (latencies_us s)),
                                  (Stdout, Totals (total_events s) (measured_events s))]))
   \<and> percentile [] p = Inr 0
   \<and> (\<exists>r. percentile v p = Inr r)"
proof -
  have "percentile [] p = Inr 0" by (simp add: percentile_def)
  then show ?thesis
    using finish_empty [of s] finish_nonempty [of s] print_stats_empty [of s final]
      percentile_total [of v p]
    by blast
qed

theorem final_report_or_notice_witness:
  "finish \<lparr>latencies_us = [], total_events = 7, measured_events = 0, out = []\<rparr>
     = (Exit 0, [(Stdout, No_events), (Stdout, Totals 7 0)])
   \<and> finish \<lparr>latencies_us = [8], total_events = 2, measured_events = 1, out = []\<rparr>
     = (Exit 0, [(Stdout, Stats True 1 8 8 8 8), (Stdout, Totals 2 1)])"
proof -
  let ?e = "\<lparr>latencies_us = [], total_events = 7, measured_events = 0, out = []\<rparr>"
  let ?n = "\<lparr>latencies_us = [8], total_events = 2, measured_events = 1, out = []\<rparr>"
  have "spec_stats True [8] = Stats True 1 8 8 8 8"
    by (simp add: spec_stats_def spec_percentile_def Let_def)
  then show ?thesis
    using final_report_or_notice [of ?e True 50 "[]"]
      final_report_or_notice [of ?n True 50 "[8]"]
    by simp
qed

section \<open>The sample limit\<close>

text \<open>
  Claim C1, as stated, fails: the limit is tested at the head of the \<open>while\<close> loop only, so
  the records of the batch that reaches the limit are all processed. With \<open>--limit 1\<close> and one
  \<open>read\<close> that returns two key events, the final summary covers two samples.
\<close>

theorem limit_overshoot_counterexample:
  "main ''input_latency'' [''/dev/input/event3'', ''--limit'', ''1'', ''--quiet'']
     \<lparr>open_ok = True, clockid_ok = True, dev_name = Some ''kbd'',
      reserve_ok = (\<lambda>n. True),
      iterations =
        [(False, Poll_ready True (Read_ok
           [(\<lparr>ev_time = \<lparr>tv_sec = 1, tv_usec = 0\<rparr>, ev_type = EV_KEY, ev_code = 30, ev_value = 1\<rparr>,
             \<lparr>ts_sec = 1, ts_nsec = 10000\<rparr>),
            (\<lparr>ev_time = \<lparr>tv_sec = 1, tv_usec = 5\<rparr>, ev_type = EV_KEY, ev_code = 30, ev_value = 0\<rparr>,
             \<lparr>ts_sec = 1, ts_nsec = 25000\<rparr>)])),
         (False, Poll_timeout)]\<rparr>
   = (Exit 0, [(Stdout, Stats True 2 15 15 (39 / 2) (199 / 10)), (Stdout, Totals 2 2)])"
  by (simp add: main_def stoi_def isspace_def isdigit_def Let_def init_state_def
      int_of_size_def loop_body_def BUF_EV_def process_event_def measure_ev_def
      tv_to_ns_def ts_to_ns_def EV_KEY_def finish_def print_stats_def percentile_def
      vec_at_def emit_def)

text \<open>
  Claim C1, amended. With a positive limit (at most \<open>2 ^ 31 - 64\<close>, so that the size still
  fits \<open>int\<close> after one more batch), at every point of the run that starts with an empty
  accumulator:
  \<^item> the accumulator holds at most \<open>limit + 63\<close> samples, and no final summary has been written;
  \<^item> once it holds \<open>limit\<close> samples or more, the loop starts no further iteration, whatever
    comes next, and the program then writes exactly one final summary, which covers all the
    accumulated samples.
\<close>

theorem limit_stops_at_loop_head:
  assumes "0 < limit" and "limit \<le> 2147483584"
  shows "\<exists>r. run_loop limit quiet tr (init_state quiet env dev) = Inr r
     \<and> length (latencies_us (state_of r)) \<le> nat limit + 63
     \<and> final_summaries (out (state_of r)) = []
     \<and> (nat limit \<le> length (latencies_us (state_of r)) \<longrightarrow>
          run_loop limit quiet (tr @ it # tr') (init_state quiet env dev)
            = Inr (Left_loop (state_of r))
          \<and> fst (finish (state_of r)) = Exit 0
          \<and> final_summaries (snd (finish (state_of r)))
              = [spec_stats True (latencies_us (state_of r))])"
proof -
  let ?s0 = "init_state quiet env dev"
  obtain r where r: "run_loop limit quiet tr ?s0 = Inr r"
    using run_loop_grown [of limit quiet tr ?s0] by blast
  have "length (latencies_us ?s0) \<le> nat limit + 63" by (simp add: init_state_def)
  from run_loop_bound [OF assms this r]
  have bound: "length (latencies_us (state_of r)) \<le> nat limit + 63" .
  have fin: "final_summaries (out (state_of r)) = []"
    using run_loop_finals [OF r] by (simp add: final_summaries_init)
  have "run_loop limit quiet (tr @ it # tr') ?s0 = Inr (Left_loop (state_of r))
          \<and> fst (finish (state_of r)) = Exit 0
          \<and> final_summaries (snd (finish (state_of r)))
              = [spec_stats True (latencies_us (state_of r))]"
    if reached: "nat limit \<le> length (latencies_us (state_of r))"
  proof -
    have "length (latencies_us (state_of r)) < 2147483648" using bound assms(2) by linarith
    then have "int_of_size (length (latencies_us (state_of r))) = int (length (latencies_us (state_of r)))"
      by (rule int_of_size_small)
    with reached assms(1) have stop: "limit \<noteq> 0 \<and> \<not> int_of_size (length (latencies_us (state_of r))) < limit"
      by linarith
    have "run_loop limit quiet (tr @ it # tr') ?s0 = Inr (Left_loop (state_of r))"
    proof (cases r)
      case (Running s1)
      with stop have "run_loop limit quiet (it # tr') s1 = Inr (Left_loop s1)"
        by (intro run_loop_Cons_leave) simp
      with r Running show ?thesis by (simp add: run_loop_append)
    next
      case (Left_loop s1)
      with r show ?thesis by (simp add: run_loop_append)
    qed
    moreover have ne: "latencies_us (state_of r) \<noteq> []" using reached assms(1) by auto
    moreover have "final_summaries (snd (finish (state_of r))) = [spec_stats True (latencies_us (state_of r))]"
      using fin by (simp add: finish_nonempty [OF ne] final_summaries_def spec_stats_def)
    ultimately show ?thesis by (simp add: fst_finish)
  qed
  with r bound fin show ?thesis by blast
qed


theorem limit_stops_at_loop_head_witness:
  "run_loop 2 True
     [(False, Poll_ready True (Read_ok
        [(\<lparr>ev_time = \<lparr>tv_sec = 1, tv_usec = 0\<rparr>, ev_type = EV_KEY, ev_code = 30, ev_value = 1\<rparr>,
          \<lparr>ts_sec = 1, ts_nsec = 1000\<rparr>),
         (\<lparr>ev_time = \<lparr>tv_sec = 1, tv_usec = 0\<rparr>, ev_type = EV_KEY, ev_code = 30, ev_value = 0\<rparr>,
          \<lparr>ts_sec = 1, ts_nsec = 2000\<rparr>),
         (\<lparr>ev_time = \<lparr>tv_sec = 1, tv_usec = 0\<rparr>, ev_type = EV_KEY, ev_code = 31, ev_value = 1\<rparr>,
          \<lparr>ts_sec = 1, ts_nsec = 3000\<rparr>)]))]
     (init_state True \<lparr>open_ok = True, clockid_ok = True, dev_name = None, reserve_ok = (\<lambda>n. True), iterations = []\<rparr>
        ''/dev/input/event3'')
   = Inr (Running \<lparr>latencies_us = [1, 2, 3], total_events = 3, measured_events = 3, out = []\<rparr>)
   \<and> run_loop 2 True
     ([(False, Poll_ready True (Read_ok
        [(\<lparr>ev_time = \<lparr>tv_sec = 1, tv_usec = 0\<rparr>, ev_type = EV_KEY, ev_code = 30, ev_value = 1\<rparr>,
          \<lparr>ts_sec = 1, ts_nsec = 1000\<rparr>),
         (\<lparr>ev_time = \<lparr>tv_sec = 1, tv_usec = 0\<rparr>, ev_type = EV_KEY, ev_code = 30, ev_value = 0\<rparr>,
          \<lparr>ts_sec = 1, ts_nsec = 2000\<rparr>),
         (\<lparr>ev_time = \<lparr>tv_sec = 1, tv_usec = 0\<rparr>, ev_type = EV_KEY, ev_code = 31, ev_value = 1\<rparr>,
          \<lparr>ts_sec = 1, ts_nsec = 3000\<rparr>)]))] @ (False, Poll_timeout) # [])
     (init_state True \<lparr>open_ok = True, clockid_ok = True, dev_name = None, reserve_ok = (\<lambda>n. True), iterations = []\<rparr>
        ''/dev/input/event3'')
   = Inr (Left_loop \<lparr>latencies_us = [1, 2, 3], total_events = 3, measured_events = 3, out = []\<rparr>)
   \<and> final_summaries
        (snd (finish \<lparr>latencies_us = [1, 2, 3], total_events = 3, measured_events = 3, out = []\<rparr>))
     = [Stats True 3 2 2 (29 / 10) (149 / 50)]"
proof -
  let ?env = "\<lparr>open_ok = True, clockid_ok = True, dev_name = None, reserve_ok = (\<lambda>n. True), iterations = []\<rparr>"
  let ?tr = "[(False, Poll_ready True (Read_ok
        [(\<lparr>ev_time = \<lparr>tv_sec = 1, tv_usec = 0\<rparr>, ev_type = EV_KEY, ev_code = 30, ev_value = 1\<rparr>,
          \<lparr>ts_sec = 1, ts_nsec = 1000\<rparr>),
         (\<lparr>ev_time = \<lparr>tv_sec = 1, tv_usec = 0\<rparr>, ev_type = EV_KEY, ev_code = 30, ev_value = 0\<rparr>,
          \<lparr>ts_sec = 1, ts_nsec = 2000\<rparr>),
         (\<lparr>ev_time = \<lparr>tv_sec = 1, tv_usec = 0\<rparr>, ev_type = EV_KEY, ev_code = 31, ev_value = 1\<rparr>,
          \<lparr>ts_sec = 1, ts_nsec = 3000\<rparr>)]))]"
  let ?s0 = "init_state True ?env ''/dev/input/event3''"
  let ?s3 = "\<lparr>latencies_us = [1, 2, 3], total_events = 3, measured_events = 3, out = []\<rparr>"
  have run: "run_loop 2 True ?tr ?s0 = Inr (Running ?s3)"
    by (simp add: init_state_def int_of_size_def loop_body_def BUF_EV_def process_event_def
        Let_def measure_ev_def tv_to_ns_def ts_to_ns_def EV_KEY_def)
  have st: "spec_stats True [1, 2, 3] = Stats True 3 2 2 (29 / 10) (149 / 50)"
    by (simp add: spec_stats_def spec_percentile_def Let_def)
  have lim: "(0::int) < 2" "(2::int) \<le> 2147483584" by simp_all
  obtain r where r: "run_loop 2 True ?tr ?s0 = Inr r"
    and reach: "nat 2 \<le> length (latencies_us (state_of r)) \<longrightarrow>
          run_loop 2 True (?tr @ (False, Poll_timeout) # []) ?s0 = Inr (Left_loop (state_of r))
          \<and> fst (finish (state_of r)) = Exit 0
          \<and> final_summaries (snd (finish (state_of r)))
              = [spec_stats True (latencies_us (state_of r))]"
    using limit_stops_at_loop_head [OF lim, of True ?tr ?env "''/dev/input/event3''"
        "(False, Poll_timeout)" "[]"] by blast
  from r have "r = Running ?s3" unfolding run by simp
  with reach have "run_loop 2 True (?tr @ (False, Poll_timeout) # []) ?s0 = Inr (Left_loop ?s3)"
     "final_summaries (snd (finish ?s3)) = [Stats True 3 2 2 (29 / 10) (149 / 50)]"
    by (simp_all add: st)
  with run show ?thesis by (simp only: simp_thms)
qed

section \<open>Exit codes\<close>

text \<open>\<open>std::stoi\<close> on a number, on text, on a value too large for \<open>int\<close>, and on a signed value with a tail.\<close>

lemma stoi_1: "stoi ''1'' = Inr 1"
  by (simp add: stoi_def isspace_def isdigit_def Let_def)

lemma stoi_abc: "stoi ''abc'' = Inl Invalid_argument"
  by (simp add: stoi_def isspace_def isdigit_def Let_def)

lemma stoi_big: "stoi ''99999999999'' = Inl Out_of_range_exn"
  by (simp add: stoi_def isspace_def isdigit_def Let_def)

lemma stoi_neg: "stoi '' -12x'' = Inr (-12)"
  by (simp add: stoi_def isspace_def isdigit_def Let_def)

text \<open>
  Claim C8, as stated, fails. An argument the program does not know is answered with the line
  \<open>Unknown arg:\<close> on standard error, not with the usage message; and a value of \<open>--limit\<close>
  that is not a number makes \<open>std::stoi\<close> throw, which nothing catches, so that the program
  ends in \<open>std::terminate\<close> without a message of its own and without the exit code 1.
\<close>

theorem invalid_arguments_counterexample:
  "main ''input_latency'' [''/dev/input/event3'', ''--verbose'']
     \<lparr>open_ok = True, clockid_ok = True, dev_name = None, reserve_ok = (\<lambda>n. True), iterations = []\<rparr>
     = (Exit 1, [(Stderr, Unknown_arg ''--verbose'')])
   \<and> main ''input_latency'' [''/dev/input/event3'', ''--limit'', ''abc'']
     \<lparr>open_ok = True, clockid_ok = True, dev_name = None, reserve_ok = (\<lambda>n. True), iterations = []\<rparr>
     = (Terminate Invalid_argument, [])"
  by (simp add: main_def stoi_def isspace_def isdigit_def Let_def)

lemma parse_args_quiet: "parse_args (''--quiet'' # rest) limit quiet = parse_args rest limit True"
  by (cases rest) simp_all

lemma parse_args_limit_value:
  "parse_args (''--limit'' # v # rest) limit quiet =
     (case stoi v of Inl x \<Rightarrow> Inl (Thrown x) | Inr n \<Rightarrow> parse_args rest n quiet)"
  by simp

lemma parse_args_unrecognised:
  assumes "unrecognised a rest"
  shows "parse_args (a # rest) limit quiet = Inl (Unknown a)"
  using assms by (cases rest) (auto simp: unrecognised_def)

lemma parse_args_render:
  assumes "values_ok opts"
  shows "parse_args (render opts @ tail) limit quiet =
           parse_args tail (fst (settings opts limit quiet)) (snd (settings opts limit quiet))"
  using assms
proof (induction opts arbitrary: limit quiet)
  case Nil
  then show ?case by simp
next
  case (Cons opt opts)
  show ?case
  proof (cases opt)
    case Quiet
    with Cons show ?thesis by (simp add: parse_args_quiet)
  next
    case (Limit v)
    with Cons.prems obtain n where n: "stoi v = Inr n" and ok: "values_ok opts"
      by (auto split: sum.splits)
    from Cons.IH [OF ok] Limit n show ?thesis by simp
  qed
qed

text \<open>
  Every list of arguments after the device path is a list of well-formed options, followed by
  nothing, by an argument that is not recognised, or by a \<open>--limit\<close> whose value \<open>std::stoi\<close>
  rejects.
\<close>

lemma args_shapes:
  "\<exists>opts. values_ok opts
     \<and> (args = render opts
        \<or> (\<exists>a rest. args = render opts @ a # rest \<and> unrecognised a rest)
        \<or> (\<exists>v rest x. args = render opts @ ''--limit'' # v # rest \<and> stoi v = Inl x))"
proof (induction args rule: length_induct)
  case (1 args)
  show ?case
  proof (cases args)
    case Nil
    then have "values_ok [] \<and> args = render []" by simp
    then show ?thesis by blast
  next
    case (Cons a rest)
    consider "unrecognised a rest" | "a = ''--quiet''" | v rest' where "a = ''--limit''" "rest = v # rest'"
      by (cases rest) (auto simp: unrecognised_def)
    then show ?thesis
    proof cases
      case 1
      with Cons have "values_ok [] \<and> args = render [] @ a # rest \<and> unrecognised a rest" by simp
      then show ?thesis by blast
    next
      case 2
      have "length rest < length args" using Cons by simp
      with 1 obtain opts where opts: "values_ok opts"
        "rest = render opts
          \<or> (\<exists>b r. rest = render opts @ b # r \<and> unrecognised b r)
          \<or> (\<exists>v r x. rest = render opts @ ''--limit'' # v # r \<and> stoi v = Inl x)"
        by blast
      have "values_ok (Quiet # opts)" using opts(1) by simp
      moreover have "args = render (Quiet # opts)
          \<or> (\<exists>b r. args = render (Quiet # opts) @ b # r \<and> unrecognised b r)
          \<or> (\<exists>v r x. args = render (Quiet # opts) @ ''--limit'' # v # r \<and> stoi v = Inl x)"
        using opts(2) Cons 2 by auto
      ultimately show ?thesis by blast
    next
      case 3
      show ?thesis
      proof (cases "stoi v")
        case (Inl x)
        with 3 Cons have "values_ok [] \<and> args = render [] @ ''--limit'' # v # rest' \<and> stoi v = Inl x"
          by simp
        then show ?thesis by blast
      next
        case (Inr n)
        have "length rest' < length args" using Cons 3 by simp
        with 1 obtain opts where opts: "values_ok opts"
          "rest' = render opts
            \<or> (\<exists>b r. rest' = render opts @ b # r \<and> unrecognised b r)
            \<or> (\<exists>w r x. rest' = render opts @ ''--limit'' # w # r \<and> stoi w = Inl x)"
          by blast
        have "values_ok (Limit v # opts)" using opts(1) Inr by simp
        moreover have "args = render (Limit v # opts)
            \<or> (\<exists>b r. args = render (Limit v # opts) @ b # r \<and> unrecognised b r)
            \<or> (\<exists>w r x. args = render (Limit v # opts) @ ''--limit'' # w # r \<and> stoi w = Inl x)"
          using opts(2) Cons 3 by auto
        ultimately show ?thesis by blast
      qed
    qed
  qed
qed

lemma main_unrecognised:
  assumes "values_ok opts" and "unrecognised a rest"
  shows "main prog (dev # render opts @ a # rest) env = (Exit 1, [(Stderr, Unknown_arg a)])"
proof -
  have "parse_args (render opts @ a # rest) 0 False = Inl (Unknown a)"
    using parse_args_render [OF assms(1)] parse_args_unrecognised [OF assms(2)] by simp
  then show ?thesis by (simp add: main_def)
qed

lemma main_accepted:
  assumes "values_ok opts"
  shows "parse_args (tl (dev # render opts)) 0 False = Inr (settings opts 0 False)"
  using parse_args_render [OF assms, of "[]" 0 False] by simp

lemma main_open_failed:
  assumes "values_ok opts" and "\<not> open_ok env"
  shows "main prog (dev # render opts) env = (Exit 1, [(Stderr, Perror ''open'')])"
proof -
  obtain limit quiet where "settings opts 0 False = (limit, quiet)" by (cases "settings opts 0 False")
  with main_accepted [OF assms(1), of dev] assms(2) show ?thesis by (simp add: main_def)
qed

text \<open>
  Claim C8, amended. Without a device path the program writes the usage message to standard
  error and exits with code 1. When the options after the device path are well formed (each
  \<open>--quiet\<close>, or \<open>--limit\<close> with a value that \<open>std::stoi\<close> converts) up to an argument that is
  not recognised, it writes the line \<open>Unknown arg:\<close> with that argument to standard error, not
  the usage message, and exits with code 1. When all the options are well formed and \<open>open\<close>
  fails, it reports the error and exits with code 1. When all the options are well formed, the
  device opens and the reservation of line 127 is granted, every path that leaves the main loop
  ends in the final report and the exit code 0; a stop flag seen at the loop head is such a
  path.
\<close>

theorem exit_codes:
  "main prog [] env = (Exit 1, [(Stderr, Usage prog)])
   \<and> (values_ok opts \<and> unrecognised a rest \<longrightarrow>
        main prog (dev # render opts @ a # rest) env = (Exit 1, [(Stderr, Unknown_arg a)]))
   \<and> (values_ok opts \<and> \<not> open_ok env \<longrightarrow>
        main prog (dev # render opts) env = (Exit 1, [(Stderr, Perror ''open'')]))
   \<and> (values_ok opts \<and> open_ok env \<and> settings opts 0 False = (limit, quiet)
        \<and> reserve_ok env (if 0 < limit then nat limit else 4096)
        \<and> run_loop limit quiet (iterations env) (init_state quiet env dev) = Inr (Left_loop s) \<longrightarrow>
        main prog (dev # render opts) env = finish s \<and> fst (finish s) = Exit 0)
   \<and> (fst it \<longrightarrow> run_loop limit quiet (it # tr) s = Inr (Left_loop s))"
proof -
  have 1: "main prog [] env = (Exit 1, [(Stderr, Usage prog)])"
    by (simp add: main_def)
  have 4: "values_ok opts \<and> open_ok env \<and> settings opts 0 False = (limit, quiet)
        \<and> reserve_ok env (if 0 < limit then nat limit else 4096)
        \<and> run_loop limit quiet (iterations env) (init_state quiet env dev) = Inr (Left_loop s) \<longrightarrow>
        main prog (dev # render opts) env = finish s \<and> fst (finish s) = Exit 0"
  proof (intro impI, elim conjE)
    assume a: "values_ok opts" "open_ok env" "settings opts 0 False = (limit, quiet)"
      "reserve_ok env (if 0 < limit then nat limit else 4096)"
      "run_loop limit quiet (iterations env) (init_state quiet env dev) = Inr (Left_loop s)"
    have p: "parse_args (tl (dev # render opts)) 0 False = Inr (limit, quiet)"
      using main_accepted [OF a(1), of dev] a(3) by simp
    have "main prog (dev # render opts) env = finish s"
      using a(2,4,5) by (intro main_left_loop [OF _ p]) simp_all
    then show "main prog (dev # render opts) env = finish s \<and> fst (finish s) = Exit 0"
      by (simp add: fst_finish)
  qed
  have 5: "fst it \<longrightarrow> run_loop limit quiet (it # tr) s = Inr (Left_loop s)"
    by simp
  show ?thesis
    using 1 4 5 main_unrecognised [of opts a rest prog dev env] main_open_failed [of opts env prog dev]
    by blast
qed


theorem exit_codes_witness:
  "main ''input_latency'' []
       \<lparr>open_ok = True, clockid_ok = True, dev_name = None, reserve_ok = (\<lambda>n. True), iterations = []\<rparr>
     = (Exit 1, [(Stderr, Usage ''input_latency'')])
   \<and> main ''input_latency'' [''/dev/input/event3'', ''--limit'', ''5'', ''--bogus'']
       \<lparr>open_ok = True, clockid_ok = True, dev_name = None, reserve_ok = (\<lambda>n. True), iterations = []\<rparr>
     = (Exit 1, [(Stderr, Unknown_arg ''--bogus'')])
   \<and> main ''input_latency'' [''/dev/input/event3'', ''--quiet'']
       \<lparr>open_ok = False, clockid_ok = True, dev_name = None, reserve_ok = (\<lambda>n. True), iterations = []\<rparr>
     = (Exit 1, [(Stderr, Perror ''open'')])
   \<and> main ''input_latency'' [''/dev/input/event3'', ''--quiet'']
       \<lparr>open_ok = True, clockid_ok = True, dev_name = None, reserve_ok = (\<lambda>n. True),
        iterations = [(True, Poll_timeout)]\<rparr>
     = (Exit 0, [(Stdout, No_events), (Stdout, Totals 0 0)])"
proof -
  let ?env = "\<lparr>open_ok = True, clockid_ok = True, dev_name = None, reserve_ok = (\<lambda>n. True), iterations = []\<rparr>"
  let ?envf = "\<lparr>open_ok = False, clockid_ok = True, dev_name = None, reserve_ok = (\<lambda>n. True), iterations = []\<rparr>"
  let ?envs = "\<lparr>open_ok = True, clockid_ok = True, dev_name = None, reserve_ok = (\<lambda>n. True),
        iterations = [(True, Poll_timeout)]\<rparr>"
  let ?dev = "''/dev/input/event3''"
  let ?s0 = "\<lparr>latencies_us = [], total_events = 0, measured_events = 0, out = []\<rparr>"
  have five: "stoi ''5'' = Inr 5" by (simp add: stoi_def isspace_def isdigit_def Let_def)
  have ok5: "values_ok [Limit ''5'']" by (simp add: five)
  have okq: "values_ok [Quiet]" by simp
  have un: "unrecognised ''--bogus'' []" by (simp add: unrecognised_def)
  have st: "settings [Quiet] 0 False = (0, True)" by simp
  have i: "init_state True ?envs ?dev = ?s0" by (simp add: init_state_def)
  have l: "run_loop 0 True (iterations ?envs) (init_state True ?envs ?dev) = Inr (Left_loop ?s0)"
    unfolding i by simp
  have f: "finish ?s0 = (Exit 0, [(Stdout, No_events), (Stdout, Totals 0 0)])"
    by (simp add: finish_def emit_def)
  have "main ''input_latency'' [] ?env = (Exit 1, [(Stderr, Usage ''input_latency'')])"
    using exit_codes [of "''input_latency''" ?env] by blast
  moreover have "main ''input_latency'' (?dev # render [Limit ''5''] @ ''--bogus'' # []) ?env
      = (Exit 1, [(Stderr, Unknown_arg ''--bogus'')])"
    using exit_codes [of "''input_latency''" ?env "[Limit ''5'']" "''--bogus''" "[]" ?dev] ok5 un
    by blast
  moreover have "main ''input_latency'' (?dev # render [Quiet]) ?envf = (Exit 1, [(Stderr, Perror ''open'')])"
    using exit_codes [of "''input_latency''" ?envf "[Quiet]" _ _ ?dev] okq by simp
  moreover have "main ''input_latency'' (?dev # render [Quiet]) ?envs = finish ?s0"
    using exit_codes [of "''input_latency''" ?envs "[Quiet]" _ _ ?dev 0 True ?s0] okq st l by simp
  ultimately show ?thesis unfolding f by simp
qed

end
